theory Spec2Isabelle
  imports Complex_Main "HOL-Library.Multiset"
begin

section \<open>Constants and data model (graph.h, algorithms.h)\<close>

text \<open>
  C \<open>int\<close> values are modelled as \<open>int\<close>; array indices and element counts that the
  code keeps non-negative are \<open>nat\<close>.  A NULL graph pointer and a failing allocation are
  not modelled: every function below works on an existing graph.
\<close>

definition MAX_CITY_NAME :: nat where
  "MAX_CITY_NAME = 50"

definition INF_DIST :: int where
  "INF_DIST = 999999"

datatype error = NotFound | OutOfBounds | NotANumber

record edge =
  destCityID :: int
  distance :: int

record city =
  cityID :: int
  cityName :: string
  city_x :: int
  city_y :: int
  adjList :: "edge list"

text \<open>
  \<open>cities g\<close> is the live prefix \<open>g->cities[0 .. numCities-1]\<close> of the backing array;
  \<open>capacity g\<close> is the number of allocated slots.
\<close>

record graph =
  cities :: "city list"
  capacity :: nat

definition numCities :: "graph \<Rightarrow> nat" where
  "numCities g = length (cities g)"

section \<open>Graph store (graph.c)\<close>

definition createGraph :: "nat \<Rightarrow> graph" where
  "createGraph initialCapacity = \<lparr>cities = [], capacity = initialCapacity\<rparr>"

text \<open>The scan of \<open>findCityIndex\<close>, started at slot \<open>i\<close>.\<close>

fun find_from :: "city list \<Rightarrow> int \<Rightarrow> int \<Rightarrow> int" where
  "find_from [] cid i = -1"
| "find_from (c # cs) cid i = (if cityID c = cid then i else find_from cs cid (i + 1))"

definition findCityIndex :: "graph \<Rightarrow> int \<Rightarrow> int" where
  "findCityIndex g cid = find_from (cities g) cid 0"

text \<open>
  \<open>addCity\<close> returns 0 on a duplicate identifier and 1 on success.  When the array is
  full the capacity is doubled first; doubling a capacity of zero leaves no room and the
  write to slot \<open>numCities\<close> is outside the allocation.
\<close>

definition addCity :: "graph \<Rightarrow> int \<Rightarrow> string \<Rightarrow> int \<Rightarrow> int \<Rightarrow> error + (graph \<times> int)" where
  "addCity g cid name x y =
     (if findCityIndex g cid \<noteq> -1 then Inr (g, 0)
      else
        let cap = (if numCities g \<ge> capacity g then 2 * capacity g else capacity g) in
        if numCities g \<ge> cap then Inl OutOfBounds
        else Inr (g\<lparr>cities := cities g @
                      [\<lparr>cityID = cid, cityName = take (MAX_CITY_NAME - 1) name,
                        city_x = x, city_y = y, adjList = []\<rparr>],
                    capacity := cap\<rparr>, 1))"

text \<open>The inner loop of \<open>deleteCity\<close>: unlink every edge whose target is \<open>cid\<close>.\<close>

fun removeEdgesTo :: "int \<Rightarrow> edge list \<Rightarrow> edge list" where
  "removeEdgesTo cid [] = []"
| "removeEdgesTo cid (e # es) =
     (if destCityID e = cid then removeEdgesTo cid es else e # removeEdgesTo cid es)"

text \<open>The outer loop of \<open>deleteCity\<close> over the slots from \<open>i\<close> on, skipping slot \<open>index\<close>.\<close>

fun purgeEdges :: "nat \<Rightarrow> int \<Rightarrow> nat \<Rightarrow> city list \<Rightarrow> city list" where
  "purgeEdges index cid i [] = []"
| "purgeEdges index cid i (c # cs) =
     (if i = index then c else c\<lparr>adjList := removeEdgesTo cid (adjList c)\<rparr>)
       # purgeEdges index cid (i + 1) cs"

definition deleteCity :: "graph \<Rightarrow> int \<Rightarrow> graph \<times> int" where
  "deleteCity g cid =
     (let index = findCityIndex g cid in
      if index = -1 then (g, 0)
      else
        let cs = purgeEdges (nat index) cid 0 (cities g) in
        (g\<lparr>cities := take (nat index) cs @ drop (nat index + 1) cs\<rparr>, 1))"

text \<open>
  The scan of \<open>addRoad\<close> for an existing road: the first edge to \<open>toID\<close> gets the new
  distance; \<open>None\<close> when the list has no such edge.
\<close>

fun updateEdge :: "int \<Rightarrow> int \<Rightarrow> edge list \<Rightarrow> edge list option" where
  "updateEdge toID d [] = None"
| "updateEdge toID d (e # es) =
     (if destCityID e = toID then Some (e\<lparr>distance := d\<rparr> # es)
      else (case updateEdge toID d es of None \<Rightarrow> None | Some es' \<Rightarrow> Some (e # es')))"

definition addRoad :: "graph \<Rightarrow> int \<Rightarrow> int \<Rightarrow> int \<Rightarrow> graph \<times> int" where
  "addRoad g fromCityID toCityID d =
     (let fromIndex = findCityIndex g fromCityID;
          toIndex = findCityIndex g toCityID in
      if fromIndex = -1 \<or> toIndex = -1 then (g, 0)
      else if d \<le> 0 then (g, 0)
      else
        let c = cities g ! nat fromIndex in
        (case updateEdge toCityID d (adjList c) of
           Some es \<Rightarrow> (g\<lparr>cities := (cities g)[nat fromIndex := c\<lparr>adjList := es\<rparr>]\<rparr>, 1)
         | None \<Rightarrow>
             (g\<lparr>cities := (cities g)[nat fromIndex :=
                   c\<lparr>adjList := \<lparr>destCityID = toCityID, distance = d\<rparr> # adjList c\<rparr>]\<rparr>, 1)))"

text \<open>The scan of \<open>removeRoad\<close>: unlink the first edge to \<open>toID\<close>.\<close>

fun unlinkEdge :: "int \<Rightarrow> edge list \<Rightarrow> edge list option" where
  "unlinkEdge toID [] = None"
| "unlinkEdge toID (e # es) =
     (if destCityID e = toID then Some es
      else (case unlinkEdge toID es of None \<Rightarrow> None | Some es' \<Rightarrow> Some (e # es')))"

definition removeRoad :: "graph \<Rightarrow> int \<Rightarrow> int \<Rightarrow> graph \<times> int" where
  "removeRoad g fromCityID toCityID =
     (let fromIndex = findCityIndex g fromCityID in
      if fromIndex = -1 then (g, 0)
      else
        let c = cities g ! nat fromIndex in
        (case unlinkEdge toCityID (adjList c) of
           Some es \<Rightarrow> (g\<lparr>cities := (cities g)[nat fromIndex := c\<lparr>adjList := es\<rparr>]\<rparr>, 1)
         | None \<Rightarrow> (g, 0)))"

text \<open>
  The invariants of the data model: city identifiers are unique; within one adjacency
  list no two edges have the same target; every edge targets a city of the graph and has
  a strictly positive weight.
\<close>

definition cityIDs :: "graph \<Rightarrow> int set" where
  "cityIDs g = cityID ` set (cities g)"

definition graph_inv :: "graph \<Rightarrow> bool" where
  "graph_inv g \<longleftrightarrow>
     distinct (map cityID (cities g)) \<and>
     (\<forall>c \<in> set (cities g).
        distinct (map destCityID (adjList c)) \<and>
        (\<forall>e \<in> set (adjList c). destCityID e \<in> cityIDs g \<and> 0 < distance e))"

text \<open>The weights of all edges from city \<open>a\<close> to city \<open>b\<close>, in storage order.\<close>

definition roads :: "graph \<Rightarrow> int \<Rightarrow> int \<Rightarrow> int list" where
  "roads g a b =
     concat (map (\<lambda>c. if cityID c = a
                         then map distance (filter (\<lambda>e. destCityID e = b) (adjList c))
                         else []) (cities g))"

text \<open>What \<open>deleteCity\<close> leaves of a surviving city: its edges to \<open>cid\<close> are gone.\<close>

definition purgeCity :: "int \<Rightarrow> city \<Rightarrow> city" where
  "purgeCity cid c = c\<lparr>adjList := removeEdgesTo cid (adjList c)\<rparr>"

section \<open>Indexed min-heap (algorithms.c)\<close>

record heapnode =
  node_cityID :: int
  node_distance :: int
  fScore :: int

text \<open>
  \<open>nodes h\<close> is the node array with its \<open>heap_capacity h\<close> slots, of which the first
  \<open>heap_size h\<close> are in use.  \<open>pos h\<close> is the position array: \<open>pos h i\<close> is the entry
  at index \<open>i\<close>.  The array has \<open>POS_SIZE\<close> entries, so every access checks its index
  with \<open>pos_ok\<close>; an access outside is the error \<open>OutOfBounds\<close>.
\<close>

record minheap =
  nodes :: "heapnode list"
  heap_size :: nat
  heap_capacity :: nat
  pos :: "int \<Rightarrow> int"

definition POS_SIZE :: int where
  "POS_SIZE = 1000"

definition pos_ok :: "int \<Rightarrow> bool" where
  "pos_ok cid \<longleftrightarrow> 0 \<le> cid \<and> cid < POS_SIZE"

text \<open>The slots of a fresh node array are never read before they are written.\<close>

definition createMinHeap :: "nat \<Rightarrow> minheap" where
  "createMinHeap cap =
     \<lparr>nodes = replicate cap \<lparr>node_cityID = 0, node_distance = 0, fScore = 0\<rparr>,
      heap_size = 0, heap_capacity = cap, pos = (\<lambda>i. -1)\<rparr>"

definition swapHeapNodes :: "heapnode list \<Rightarrow> nat \<Rightarrow> nat \<Rightarrow> heapnode list" where
  "swapHeapNodes ns a b = ns[a := ns ! b, b := ns ! a]"

text \<open>
  The two writes to the position array and the node swap that every sift step performs:
  \<open>pos[nodes[a].cityID] = b; pos[nodes[b].cityID] = a; swap(nodes[a], nodes[b])\<close>.
\<close>

definition swapPos :: "minheap \<Rightarrow> nat \<Rightarrow> nat \<Rightarrow> error + minheap" where
  "swapPos h a b =
     (if pos_ok (node_cityID (nodes h ! a)) \<and> pos_ok (node_cityID (nodes h ! b))
      then Inr (h\<lparr>pos := (pos h)(node_cityID (nodes h ! a) := int b,
                                 node_cityID (nodes h ! b) := int a),
                  nodes := swapHeapNodes (nodes h) a b\<rparr>)
      else Inl OutOfBounds)"

text \<open>The index \<open>smallest\<close> that \<open>minHeapify\<close> computes from \<open>idx\<close> and its children.\<close>

definition smallestOf :: "minheap \<Rightarrow> nat \<Rightarrow> nat" where
  "smallestOf h idx =
     (let left = 2 * idx + 1;
          right = 2 * idx + 2;
          smallest = (if left < heap_size h \<and> fScore (nodes h ! left) < fScore (nodes h ! idx)
                      then left else idx)
      in if right < heap_size h \<and> fScore (nodes h ! right) < fScore (nodes h ! smallest)
         then right else smallest)"

lemma smallestOf_cases:
  "smallestOf h idx = idx \<or>
   (smallestOf h idx = 2 * idx + 1 \<and> 2 * idx + 1 < heap_size h) \<or>
   (smallestOf h idx = 2 * idx + 2 \<and> 2 * idx + 2 < heap_size h)"
  by (simp add: smallestOf_def Let_def)

lemma swapPos_size: "swapPos h a b = Inr h' \<Longrightarrow> heap_size h' = heap_size h"
  by (auto simp: swapPos_def split: if_splits)

function minHeapify :: "minheap \<Rightarrow> nat \<Rightarrow> error + minheap" where
  "minHeapify h idx =
     (let smallest = smallestOf h idx in
      if smallest \<noteq> idx then
        (case swapPos h smallest idx of
           Inl e \<Rightarrow> Inl e
         | Inr h' \<Rightarrow> minHeapify h' smallest)
      else Inr h)"
  by pat_completeness auto
termination
proof (relation "measure (\<lambda>(h, idx). heap_size h - idx)")
  show "wf (measure (\<lambda>(h, idx). heap_size h - idx))" by simp
next
  fix h :: minheap and idx x h'
  assume "x = smallestOf h idx" and "x \<noteq> idx" and "swapPos h x idx = Inr h'"
  with smallestOf_cases [of h idx] swapPos_size [of h x idx h']
  show "((h', x), (h, idx)) \<in> measure (\<lambda>(h, idx). heap_size h - idx)"
    by auto
qed

definition isHeapEmpty :: "minheap \<Rightarrow> bool" where
  "isHeapEmpty h \<longleftrightarrow> heap_size h = 0"

definition extractMin :: "minheap \<Rightarrow> error + (heapnode \<times> minheap)" where
  "extractMin h =
     (if isHeapEmpty h
      then Inr (\<lparr>node_cityID = -1, node_distance = INF_DIST, fScore = INF_DIST\<rparr>, h)
      else
        let root = nodes h ! 0;
            lastNode = nodes h ! (heap_size h - 1)
        in if pos_ok (node_cityID root) \<and> pos_ok (node_cityID lastNode)
           then
             (case minHeapify
                     (h\<lparr>nodes := (nodes h)[0 := lastNode],
                        pos := (pos h)(node_cityID root := -1, node_cityID lastNode := 0),
                        heap_size := heap_size h - 1\<rparr>) 0 of
                Inl e \<Rightarrow> Inl e
              | Inr h' \<Rightarrow> Inr (root, h'))
           else Inl OutOfBounds)"

text \<open>
  The bubble-up loop that \<open>decreaseKey\<close> and \<open>insertHeap\<close> both end with, started at
  slot \<open>i\<close>.
\<close>

function bubbleUp :: "minheap \<Rightarrow> nat \<Rightarrow> error + minheap" where
  "bubbleUp h i =
     (if 0 < i \<and> fScore (nodes h ! i) < fScore (nodes h ! ((i - 1) div 2))
      then
        (case swapPos h i ((i - 1) div 2) of
           Inl e \<Rightarrow> Inl e
         | Inr h' \<Rightarrow> bubbleUp h' ((i - 1) div 2))
      else Inr h)"
  by pat_completeness auto
termination
  by (relation "measure (\<lambda>(h, i). i)") auto

definition decreaseKey :: "minheap \<Rightarrow> int \<Rightarrow> int \<Rightarrow> int \<Rightarrow> error + minheap" where
  "decreaseKey h cid newDist newFScore =
     (if \<not> pos_ok cid then Inl OutOfBounds
      else
        let i = pos h cid in
        if i = -1 then Inr h
        else if i < 0 \<or> int (heap_capacity h) \<le> i then Inl OutOfBounds
        else
          bubbleUp
            (h\<lparr>nodes := (nodes h)[nat i :=
                  (nodes h ! nat i)\<lparr>node_distance := newDist, fScore := newFScore\<rparr>]\<rparr>)
            (nat i))"

definition insertHeap :: "minheap \<Rightarrow> int \<Rightarrow> int \<Rightarrow> int \<Rightarrow> error + minheap" where
  "insertHeap h cid d f =
     (if heap_capacity h \<le> heap_size h then Inr h
      else if \<not> pos_ok cid then Inl OutOfBounds
      else
        let i = heap_size h in
        bubbleUp
          (h\<lparr>heap_size := heap_size h + 1,
             nodes := (nodes h)[i := \<lparr>node_cityID = cid, node_distance = d, fScore = f\<rparr>],
             pos := (pos h)(cid := int i)\<rparr>)
          i)"

declare minHeapify.simps [simp del] bubbleUp.simps [simp del]

section \<open>Path results (algorithms.c)\<close>

text \<open>
  Signed 32-bit arithmetic: the sum of two \<open>int\<close> values wraps around into the range
  from \<open>-2^31\<close> to \<open>2^31 - 1\<close>.
\<close>

definition int32 :: "int \<Rightarrow> int" where
  "int32 v = (v + 2147483648) mod 4294967296 - 2147483648"

text \<open>\<open>path pr\<close> is the used prefix \<open>pr->path[0 .. pathLength-1]\<close> of the path array.\<close>

record pathresult =
  path :: "int list"
  totalDistance :: int
  pathCapacity :: nat

definition pathLength :: "pathresult \<Rightarrow> nat" where
  "pathLength pr = length (path pr)"

definition createPathResult :: "nat \<Rightarrow> pathresult" where
  "createPathResult cap = \<lparr>path = [], totalDistance = 0, pathCapacity = cap\<rparr>"

text \<open>
  \<open>addToPath\<close> doubles the capacity of a full array before it writes; doubling a
  capacity of zero leaves no room for the write.
\<close>

definition addToPath :: "pathresult \<Rightarrow> int \<Rightarrow> error + pathresult" where
  "addToPath pr cid =
     (let cap = (if pathCapacity pr \<le> pathLength pr then 2 * pathCapacity pr
                 else pathCapacity pr)
      in if cap \<le> pathLength pr then Inl OutOfBounds
         else Inr (pr\<lparr>path := path pr @ [cid], pathCapacity := cap\<rparr>))"

definition reversePath :: "pathresult \<Rightarrow> pathresult" where
  "reversePath pr = pr\<lparr>path := rev (path pr)\<rparr>"

text \<open>
  The loop that walks the parent links back from the destination:
  \<open>while (current != -1) { addToPath(result, cities[current].cityID); current = parent[current]; }\<close>.
  Nothing in the loop bounds the walk, so it is a partial function: \<open>None\<close> means that
  the loop does not end.
\<close>

partial_function (option) tracePath ::
    "graph \<Rightarrow> int list \<Rightarrow> int \<Rightarrow> pathresult \<Rightarrow> (error + pathresult) option" where
  "tracePath g parent current pr =
     (if current = -1 then Some (Inr pr)
      else if current < 0 \<or> int (numCities g) \<le> current then Some (Inl OutOfBounds)
      else
        (case addToPath pr (cityID (cities g ! nat current)) of
           Inl e \<Rightarrow> Some (Inl e)
         | Inr pr' \<Rightarrow> tracePath g parent (parent ! nat current) pr'))"

declare tracePath.simps [code]

section \<open>Dijkstra (algorithms.c)\<close>

record dstate =
  dist_arr :: "int list"
  parent_arr :: "int list"
  dheap :: minheap

text \<open>The loop that inserts every city with its initial distance, from slot \<open>i\<close> on.\<close>

fun insertAll :: "(city \<times> int) list \<Rightarrow> minheap \<Rightarrow> error + minheap" where
  "insertAll [] h = Inr h"
| "insertAll ((c, d) # rest) h =
     (case insertHeap h (cityID c) d d of
        Inl e \<Rightarrow> Inl e
      | Inr h' \<Rightarrow> insertAll rest h')"

text \<open>
  The edge loop of one iteration, for the extracted slot \<open>u\<close>.  The test
  \<open>dist[u] != INF && dist[u] + edge->distance < dist[v]\<close> reads \<open>dist[v]\<close> only when
  \<open>dist[u]\<close> is not INF; with \<open>v = -1\<close> that read is outside the array.
\<close>

fun relaxEdges :: "graph \<Rightarrow> nat \<Rightarrow> edge list \<Rightarrow> dstate \<Rightarrow> error + dstate" where
  "relaxEdges g u [] s = Inr s"
| "relaxEdges g u (e # es) s =
     (let v = findCityIndex g (destCityID e) in
      if dist_arr s ! u = INF_DIST then relaxEdges g u es s
      else if v = -1 then Inl OutOfBounds
      else if int32 (dist_arr s ! u + distance e) < dist_arr s ! nat v then
        (let d = int32 (dist_arr s ! u + distance e) in
         case decreaseKey (dheap s) (destCityID e) d d of
           Inl er \<Rightarrow> Inl er
         | Inr h' \<Rightarrow>
             relaxEdges g u es
               (s\<lparr>dist_arr := (dist_arr s)[nat v := d],
                  parent_arr := (parent_arr s)[nat v := int u],
                  dheap := h'\<rparr>))
      else relaxEdges g u es s)"

lemma minHeapify_size: "minHeapify h idx = Inr h' \<Longrightarrow> heap_size h' = heap_size h"
proof (induction h idx arbitrary: h' rule: minHeapify.induct)
  case (1 h idx)
  show ?case
  proof (cases "smallestOf h idx = idx")
    case True
    with "1.prems" show ?thesis by (simp add: minHeapify.simps)
  next
    case False
    with "1.prems" obtain h1 where h1: "swapPos h (smallestOf h idx) idx = Inr h1"
      and rec: "minHeapify h1 (smallestOf h idx) = Inr h'"
      by (auto simp: minHeapify.simps [of h idx] Let_def split: sum.splits)
    from "1.IH" [OF refl False h1 rec] swapPos_size [OF h1] show ?thesis by simp
  qed
qed

lemma bubbleUp_size: "bubbleUp h i = Inr h' \<Longrightarrow> heap_size h' = heap_size h"
proof (induction h i arbitrary: h' rule: bubbleUp.induct)
  case (1 h i)
  show ?case
  proof (cases "0 < i \<and> fScore (nodes h ! i) < fScore (nodes h ! ((i - 1) div 2))")
    case False
    with "1.prems" show ?thesis by (auto simp: bubbleUp.simps [of h i])
  next
    case True
    with "1.prems" obtain h1 where h1: "swapPos h i ((i - 1) div 2) = Inr h1"
      and rec: "bubbleUp h1 ((i - 1) div 2) = Inr h'"
      by (auto simp: bubbleUp.simps [of h i] split: sum.splits)
    from "1.IH" [OF True h1 rec] swapPos_size [OF h1] show ?thesis by simp
  qed
qed

lemma extractMin_size:
  "extractMin h = Inr (n, h') \<Longrightarrow> heap_size h \<noteq> 0 \<Longrightarrow> heap_size h' = heap_size h - 1"
  by (auto simp: extractMin_def isHeapEmpty_def Let_def split: if_splits sum.splits
           dest!: minHeapify_size)

lemma decreaseKey_size: "decreaseKey h cid d f = Inr h' \<Longrightarrow> heap_size h' = heap_size h"
  by (auto simp: decreaseKey_def Let_def split: if_splits dest!: bubbleUp_size)

lemma relaxEdges_size:
  "relaxEdges g u es s = Inr s' \<Longrightarrow> heap_size (dheap s') = heap_size (dheap s)"
proof (induction es arbitrary: s)
  case Nil
  then show ?case by simp
next
  case (Cons e es)
  from Cons.prems show ?case
    by (auto simp: Let_def split: if_splits sum.splits
             dest!: Cons.IH decreaseKey_size)
qed

text \<open>
  The main loop.  \<open>destIndex\<close> is the slot of the destination; the loop ends when the
  heap is empty or when the destination has been extracted.
\<close>

function dijkstraLoop :: "graph \<Rightarrow> int \<Rightarrow> dstate \<Rightarrow> error + dstate" where
  "dijkstraLoop g destIndex s =
     (if isHeapEmpty (dheap s) then Inr s
      else
        (case extractMin (dheap s) of
           Inl e \<Rightarrow> Inl e
         | Inr (minNode, h') \<Rightarrow>
             (let u = findCityIndex g (node_cityID minNode) in
              if u = destIndex then Inr (s\<lparr>dheap := h'\<rparr>)
              else if u = -1 then Inl OutOfBounds
              else
                (case relaxEdges g (nat u) (adjList (cities g ! nat u)) (s\<lparr>dheap := h'\<rparr>) of
                   Inl e \<Rightarrow> Inl e
                 | Inr s' \<Rightarrow> dijkstraLoop g destIndex s'))))"
  by pat_completeness auto
termination
proof (relation "measure (\<lambda>(g, destIndex, s). heap_size (dheap s))")
  show "wf (measure (\<lambda>(g, destIndex, s). heap_size (dheap s)))" by simp
next
  fix g :: graph and destIndex :: int and s :: dstate and x2 minNode h' u s'
  assume "\<not> isHeapEmpty (dheap s)" and "extractMin (dheap s) = Inr x2"
    and "(minNode, h') = x2"
    and "relaxEdges g (nat u) (adjList (cities g ! nat u)) (s\<lparr>dheap := h'\<rparr>) = Inr s'"
  with extractMin_size [of "dheap s" minNode h'] relaxEdges_size [of g "nat u" _ _ s']
  show "((g, destIndex, s'), (g, destIndex, s)) \<in> measure (\<lambda>(g, destIndex, s). heap_size (dheap s))"
    by (auto simp: isHeapEmpty_def)
qed

declare dijkstraLoop.simps [simp del]

text \<open>
  Every operation on the graph store returns the graph as it is after the call together
  with its result.  For a path query the result is \<open>None\<close> when the call does not end,
  \<open>Some (Inl NotFound)\<close> when it returns NULL because an endpoint is missing,
  \<open>Some (Inl e)\<close> for an access or conversion \<open>e\<close> whose behaviour C leaves undefined,
  and \<open>Some (Inr pr)\<close> when it returns the path result \<open>pr\<close>.
\<close>

definition dijkstra :: "graph \<Rightarrow> int \<Rightarrow> int \<Rightarrow> graph \<times> (error + pathresult) option" where
  "dijkstra g sourceID destID =
     (g,
      let srcIndex = findCityIndex g sourceID;
          destIndex = findCityIndex g destID
      in if srcIndex = -1 \<or> destIndex = -1 then Some (Inl NotFound)
         else
           let dist = (replicate (numCities g) INF_DIST)[nat srcIndex := 0];
               parent = replicate (numCities g) (-1)
           in case insertAll (zip (cities g) dist) (createMinHeap (numCities g)) of
                Inl e \<Rightarrow> Some (Inl e)
              | Inr h \<Rightarrow>
                  (case dijkstraLoop g destIndex
                          \<lparr>dist_arr = dist, parent_arr = parent, dheap = h\<rparr> of
                     Inl e \<Rightarrow> Some (Inl e)
                   | Inr s \<Rightarrow>
                       (let result = createPathResult (numCities g) in
                        if dist_arr s ! nat destIndex = INF_DIST then Some (Inr result)
                        else
                          (case tracePath g (parent_arr s) destIndex
                                  (result\<lparr>totalDistance := dist_arr s ! nat destIndex\<rparr>) of
                             None \<Rightarrow> None
                           | Some (Inl e) \<Rightarrow> Some (Inl e)
                           | Some (Inr pr) \<Rightarrow> Some (Inr (reversePath pr))))))"

section \<open>A* (algorithms.c)\<close>

text \<open>
  The integer square root.  For an \<open>int\<close> value \<open>n\<close> that is not negative the C
  expression \<open>(int)sqrt(n)\<close> is the largest integer whose square is at most \<open>n\<close>.
\<close>

fun isqrt :: "nat \<Rightarrow> nat" where
  "isqrt n =
     (if n < 2 then n
      else let r = 2 * isqrt (n div 4) in
           if (r + 1) * (r + 1) \<le> n then r + 1 else r)"

declare isqrt.simps [simp del]

text \<open>
  \<open>heuristic\<close>: the coordinate differences, their squares and the sum are \<open>int\<close>
  arithmetic; the square root of a negative sum is not a number, and its conversion to
  \<open>int\<close> is undefined.
\<close>

definition heuristic :: "graph \<Rightarrow> nat \<Rightarrow> nat \<Rightarrow> error + int" where
  "heuristic g cityIndex1 cityIndex2 =
     (let dx = int32 (city_x (cities g ! cityIndex1) - city_x (cities g ! cityIndex2));
          dy = int32 (city_y (cities g ! cityIndex1) - city_y (cities g ! cityIndex2));
          n = int32 (int32 (dx * dx) + int32 (dy * dy))
      in if n < 0 then Inl NotANumber else Inr (int (isqrt (nat n))))"

record astate =
  gScore_arr :: "int list"
  fScore_arr :: "int list"
  aparent_arr :: "int list"
  aheap :: minheap

text \<open>
  The edge loop of one iteration, for the extracted slot \<open>u\<close>.  The comparison reads
  \<open>gScore[v]\<close>, outside the array when \<open>v = -1\<close>; the test \<open>h->pos[edge->destCityID] == -1\<close>
  reads the position array at the raw identifier.
\<close>

fun astarEdges :: "graph \<Rightarrow> nat \<Rightarrow> nat \<Rightarrow> edge list \<Rightarrow> astate \<Rightarrow> error + astate" where
  "astarEdges g u destIndex [] s = Inr s"
| "astarEdges g u destIndex (e # es) s =
     (let v = findCityIndex g (destCityID e);
          tentative_gScore = int32 (gScore_arr s ! u + distance e)
      in if v = -1 then Inl OutOfBounds
         else if tentative_gScore < gScore_arr s ! nat v then
           (case heuristic g (nat v) destIndex of
              Inl er \<Rightarrow> Inl er
            | Inr hv \<Rightarrow>
                (let f = int32 (tentative_gScore + hv) in
                 if \<not> pos_ok (destCityID e) then Inl OutOfBounds
                 else
                   (case (if pos (aheap s) (destCityID e) = -1
                          then insertHeap (aheap s) (destCityID e) tentative_gScore f
                          else decreaseKey (aheap s) (destCityID e) tentative_gScore f) of
                      Inl er \<Rightarrow> Inl er
                    | Inr h' \<Rightarrow>
                        astarEdges g u destIndex es
                          (s\<lparr>aparent_arr := (aparent_arr s)[nat v := int u],
                             gScore_arr := (gScore_arr s)[nat v := tentative_gScore],
                             fScore_arr := (fScore_arr s)[nat v := f],
                             aheap := h'\<rparr>))))
         else astarEdges g u destIndex es s)"

text \<open>
  The main loop.  A city can enter the heap again after it has left it, so the loop is a
  partial function: \<open>None\<close> means that it does not end.
\<close>

partial_function (option) astarLoop ::
    "graph \<Rightarrow> int \<Rightarrow> astate \<Rightarrow> (error + astate) option" where
  "astarLoop g destIndex s =
     (if isHeapEmpty (aheap s) then Some (Inr s)
      else
        (case extractMin (aheap s) of
           Inl e \<Rightarrow> Some (Inl e)
         | Inr (minNode, h') \<Rightarrow>
             (let u = findCityIndex g (node_cityID minNode) in
              if u = destIndex then Some (Inr (s\<lparr>aheap := h'\<rparr>))
              else if u = -1 then Some (Inl OutOfBounds)
              else
                (case astarEdges g (nat u) (nat destIndex) (adjList (cities g ! nat u))
                        (s\<lparr>aheap := h'\<rparr>) of
                   Inl e \<Rightarrow> Some (Inl e)
                 | Inr s' \<Rightarrow> astarLoop g destIndex s'))))"

declare astarLoop.simps [code]

definition astar :: "graph \<Rightarrow> int \<Rightarrow> int \<Rightarrow> graph \<times> (error + pathresult) option" where
  "astar g sourceID destID =
     (g,
      let srcIndex = findCityIndex g sourceID;
          destIndex = findCityIndex g destID
      in if srcIndex = -1 \<or> destIndex = -1 then Some (Inl NotFound)
         else
           (case heuristic g (nat srcIndex) (nat destIndex) of
              Inl e \<Rightarrow> Some (Inl e)
            | Inr h0 \<Rightarrow>
                (let gScore = (replicate (numCities g) INF_DIST)[nat srcIndex := 0];
                     fScore = (replicate (numCities g) INF_DIST)[nat srcIndex := h0];
                     parent = replicate (numCities g) (-1)
                 in case insertHeap (createMinHeap (numCities g))
                           (cityID (cities g ! nat srcIndex))
                           (gScore ! nat srcIndex) (fScore ! nat srcIndex) of
                      Inl e \<Rightarrow> Some (Inl e)
                    | Inr h \<Rightarrow>
                        (case astarLoop g destIndex
                                \<lparr>gScore_arr = gScore, fScore_arr = fScore,
                                 aparent_arr = parent, aheap = h\<rparr> of
                           None \<Rightarrow> None
                         | Some (Inl e) \<Rightarrow> Some (Inl e)
                         | Some (Inr s) \<Rightarrow>
                             (let result = createPathResult (numCities g) in
                              if gScore_arr s ! nat destIndex = INF_DIST then Some (Inr result)
                              else
                                (case tracePath g (aparent_arr s) destIndex
                                        (result\<lparr>totalDistance := gScore_arr s ! nat destIndex\<rparr>) of
                                   None \<Rightarrow> None
                                 | Some (Inl e) \<Rightarrow> Some (Inl e)
                                 | Some (Inr pr) \<Rightarrow> Some (Inr (reversePath pr))))))))"

section \<open>Traversals (algorithms.c)\<close>

text \<open>
  The traversals print the names of the cities in the order of the visit; the printed
  order is their result here.  \<open>visited\<close> is the marker array, indexed by slot.
\<close>

text \<open>
  The edge loop of one BFS iteration: \<open>q\<close> is the part of the queue array between
  \<open>front\<close> and \<open>rear\<close>.
\<close>

fun bfsEdges :: "graph \<Rightarrow> edge list \<Rightarrow> bool list \<Rightarrow> nat list \<Rightarrow> bool list \<times> nat list" where
  "bfsEdges g [] visited q = (visited, q)"
| "bfsEdges g (e # es) visited q =
     (let destIndex = findCityIndex g (destCityID e) in
      if destIndex \<noteq> -1 \<and> \<not> visited ! nat destIndex
      then bfsEdges g es (visited[nat destIndex := True]) (q @ [nat destIndex])
      else bfsEdges g es visited q)"

partial_function (option) bfsLoop ::
    "graph \<Rightarrow> bool list \<Rightarrow> nat list \<Rightarrow> string list \<Rightarrow> string list option" where
  "bfsLoop g visited q out =
     (case q of
        [] \<Rightarrow> Some out
      | current # rest \<Rightarrow>
          (case bfsEdges g (adjList (cities g ! current)) visited rest of
             (visited', q') \<Rightarrow> bfsLoop g visited' q' (out @ [cityName (cities g ! current)])))"

declare bfsLoop.simps [code]

definition BFS :: "graph \<Rightarrow> int \<Rightarrow> graph \<times> (error + string list) option" where
  "BFS g startCityID =
     (g,
      let startIndex = findCityIndex g startCityID in
      if startIndex = -1 then Some (Inl NotFound)
      else
        (case bfsLoop g ((replicate (numCities g) False)[nat startIndex := True])
                [nat startIndex] [] of
           None \<Rightarrow> None
         | Some out \<Rightarrow> Some (Inr out)))"

text \<open>
  \<open>dfsEdges\<close> is the second edge loop of \<open>DFSUtil\<close> with the recursive call in place:
  an unvisited target is marked and printed, its own edges are walked, and the loop goes
  on with the markers that walk leaves.
\<close>

partial_function (option) dfsEdges ::
    "graph \<Rightarrow> edge list \<Rightarrow> bool list \<Rightarrow> string list \<Rightarrow> (bool list \<times> string list) option" where
  "dfsEdges g es visited out =
     (case es of
        [] \<Rightarrow> Some (visited, out)
      | e # rest \<Rightarrow>
          (let destIndex = findCityIndex g (destCityID e) in
           if destIndex \<noteq> -1 \<and> \<not> visited ! nat destIndex
           then
             Option.bind
               (dfsEdges g (adjList (cities g ! nat destIndex))
                  (visited[nat destIndex := True])
                  (out @ [cityName (cities g ! nat destIndex)]))
               (\<lambda>r. dfsEdges g rest (fst r) (snd r))
           else dfsEdges g rest visited out))"

declare dfsEdges.simps [code]

definition DFSUtil ::
    "graph \<Rightarrow> nat \<Rightarrow> bool list \<Rightarrow> string list \<Rightarrow> (bool list \<times> string list) option" where
  "DFSUtil g cityIndex visited out =
     dfsEdges g (adjList (cities g ! cityIndex)) (visited[cityIndex := True])
       (out @ [cityName (cities g ! cityIndex)])"

definition DFS :: "graph \<Rightarrow> int \<Rightarrow> graph \<times> (error + string list) option" where
  "DFS g startCityID =
     (g,
      let startIndex = findCityIndex g startCityID in
      if startIndex = -1 then Some (Inl NotFound)
      else
        (case DFSUtil g (nat startIndex) (replicate (numCities g) False) [] of
           None \<Rightarrow> None
         | Some r \<Rightarrow> Some (Inr (snd r))))"

section \<open>Bulk load (fileio.c)\<close>

text \<open>
  The two loops of \<open>loadGraphFromFiles\<close> over the parsed records: one \<open>addCity\<close> per
  city record, then one \<open>addRoad\<close> per road record; a call that fails is skipped.
\<close>

fun loadCities :: "graph \<Rightarrow> (int \<times> string \<times> int \<times> int) list \<Rightarrow> error + graph" where
  "loadCities g [] = Inr g"
| "loadCities g ((cid, name, x, y) # rest) =
     (case addCity g cid name x y of
        Inl e \<Rightarrow> Inl e
      | Inr (g', r) \<Rightarrow> loadCities g' rest)"

fun loadRoads :: "graph \<Rightarrow> (int \<times> int \<times> int) list \<Rightarrow> graph" where
  "loadRoads g [] = g"
| "loadRoads g ((a, b, d) # rest) = loadRoads (fst (addRoad g a b d)) rest"

definition loadGraph ::
    "graph \<Rightarrow> (int \<times> string \<times> int \<times> int) list \<Rightarrow> (int \<times> int \<times> int) list \<Rightarrow> error + graph" where
  "loadGraph g cityRecords roadRecords =
     (case loadCities g cityRecords of
        Inl e \<Rightarrow> Inl e
      | Inr g' \<Rightarrow> Inr (loadRoads g' roadRecords))"

text \<open>A small graph used to run the operations: three cities, four roads.\<close>

definition triangle :: graph where
  "triangle =
     \<lparr>cities =
        [\<lparr>cityID = 1, cityName = ''A'', city_x = 0, city_y = 0,
          adjList = [\<lparr>destCityID = 2, distance = 5\<rparr>]\<rparr>,
         \<lparr>cityID = 2, cityName = ''B'', city_x = 3, city_y = 4,
          adjList = [\<lparr>destCityID = 1, distance = 5\<rparr>]\<rparr>,
         \<lparr>cityID = 3, cityName = ''C'', city_x = 6, city_y = 8,
          adjList = [\<lparr>destCityID = 2, distance = 6\<rparr>, \<lparr>destCityID = 1, distance = 11\<rparr>]\<rparr>],
      capacity = 3\<rparr>"

text \<open>
  The graph of the example scenario, with the identifiers 1 to 4 for A to D.  Roads are
  prepended, so A's list has the road to C before the road to B.
\<close>

definition squareGraph :: graph where
  "squareGraph =
     \<lparr>cities =
        [\<lparr>cityID = 1, cityName = ''A'', city_x = 0, city_y = 0,
          adjList = [\<lparr>destCityID = 3, distance = 4\<rparr>, \<lparr>destCityID = 2, distance = 3\<rparr>]\<rparr>,
         \<lparr>cityID = 2, cityName = ''B'', city_x = 0, city_y = 3,
          adjList = [\<lparr>destCityID = 4, distance = 4\<rparr>]\<rparr>,
         \<lparr>cityID = 3, cityName = ''C'', city_x = 4, city_y = 0,
          adjList = [\<lparr>destCityID = 4, distance = 3\<rparr>]\<rparr>,
         \<lparr>cityID = 4, cityName = ''D'', city_x = 4, city_y = 3, adjList = []\<rparr>],
      capacity = 50\<rparr>"

section \<open>Properties of the graph store\<close>

lemma find_from_notin: "cid \<notin> cityID ` set cs \<Longrightarrow> find_from cs cid i = -1"
  by (induction cs arbitrary: i) auto

lemma find_from_in:
  "cid \<in> cityID ` set cs \<Longrightarrow> 0 \<le> i \<Longrightarrow>
     i \<le> find_from cs cid i \<and> find_from cs cid i < i + int (length cs) \<and>
     cityID (cs ! nat (find_from cs cid i - i)) = cid \<and>
     cid \<notin> cityID ` set (take (nat (find_from cs cid i - i)) cs)"
proof (induction cs arbitrary: i)
  case Nil
  then show ?case by simp
next
  case (Cons c cs)
  show ?case
  proof (cases "cityID c = cid")
    case True
    then show ?thesis by simp
  next
    case False
    with Cons.prems have mem: "cid \<in> cityID ` set cs" by auto
    from Cons.prems have "0 \<le> i + 1" by simp
    from Cons.IH [OF mem this] have
      ih: "i + 1 \<le> find_from cs cid (i + 1)"
          "find_from cs cid (i + 1) < i + 1 + int (length cs)"
          "cityID (cs ! nat (find_from cs cid (i + 1) - (i + 1))) = cid"
          "cid \<notin> cityID ` set (take (nat (find_from cs cid (i + 1) - (i + 1))) cs)"
      by simp_all
    define k where "k = nat (find_from cs cid (i + 1) - (i + 1))"
    have k: "nat (find_from cs cid (i + 1) - i) = Suc k"
      using ih(1) by (simp add: k_def nat_diff_distrib)
    show ?thesis
      using False ih k by (simp add: k_def)
  qed
qed

lemma findCityIndex_none:
  "findCityIndex g cid = -1 \<longleftrightarrow> cid \<notin> cityID ` set (cities g)"
proof
  assume "findCityIndex g cid = -1"
  show "cid \<notin> cityID ` set (cities g)"
  proof
    assume "cid \<in> cityID ` set (cities g)"
    from find_from_in [OF this, of 0] \<open>findCityIndex g cid = -1\<close>
    show False by (simp add: findCityIndex_def)
  qed
next
  assume "cid \<notin> cityID ` set (cities g)"
  then show "findCityIndex g cid = -1"
    by (simp add: findCityIndex_def find_from_notin)
qed

lemma findCityIndex_some:
  assumes "cid \<in> cityID ` set (cities g)"
  shows "0 \<le> findCityIndex g cid" and "nat (findCityIndex g cid) < length (cities g)"
    and "cityID (cities g ! nat (findCityIndex g cid)) = cid"
  using find_from_in [OF assms, of 0] by (auto simp add: findCityIndex_def)


lemma findCityIndex_nth:
  assumes "distinct (map cityID (cities g))" and "i < length (cities g)"
  shows "findCityIndex g (cityID (cities g ! i)) = int i"
proof -
  let ?c = "cityID (cities g ! i)"
  have mem: "?c \<in> cityID ` set (cities g)" using assms(2) by auto
  let ?j = "nat (findCityIndex g ?c)"
  from findCityIndex_some [OF mem] have j: "0 \<le> findCityIndex g ?c" "?j < length (cities g)"
    "cityID (cities g ! ?j) = ?c" by auto
  from j(2,3) assms have "?j = i"
    by (metis length_map nth_eq_iff_index_eq nth_map)
  with j(1) show ?thesis by simp
qed

subsection \<open>deleteCity\<close>

lemma removeEdgesTo_filter: "removeEdgesTo cid es = filter (\<lambda>e. destCityID e \<noteq> cid) es"
  by (induction es) auto

lemma purgeEdges_past: "index < i \<Longrightarrow> purgeEdges index cid i cs = map (purgeCity cid) cs"
  by (induction cs arbitrary: i) (auto simp: purgeCity_def)

lemma purgeEdges_length: "length (purgeEdges index cid i cs) = length cs"
  by (induction cs arbitrary: i) auto

lemma purgeEdges_remove:
  "distinct (map cityID cs) \<Longrightarrow> k < length cs \<Longrightarrow> cityID (cs ! k) = cid \<Longrightarrow>
     take k (purgeEdges (i + k) cid i cs) @ drop (k + 1) (purgeEdges (i + k) cid i cs)
       = map (purgeCity cid) (filter (\<lambda>c. cityID c \<noteq> cid) cs)"
proof (induction cs arbitrary: k i)
  case Nil
  then show ?case by simp
next
  case (Cons c cs)
  show ?case
  proof (cases k)
    case 0
    with Cons.prems have c: "cityID c = cid" and notin: "cid \<notin> cityID ` set cs" by auto
    from notin have "filter (\<lambda>c. cityID c \<noteq> cid) cs = cs"
      by (auto simp: filter_id_conv)
    with 0 c show ?thesis by (simp add: purgeEdges_past)
  next
    case (Suc k')
    with Cons.prems have k': "k' < length cs" "cityID (cs ! k') = cid" "distinct (map cityID cs)"
      by auto
    from k' Cons.prems(1) have neq: "cityID c \<noteq> cid"
      by (metis distinct.simps(2) image_eqI list.simps(9) list.set_map nth_mem)
    have "take k' (purgeEdges (i + 1 + k') cid (i + 1) cs)
            @ drop (k' + 1) (purgeEdges (i + 1 + k') cid (i + 1) cs)
          = map (purgeCity cid) (filter (\<lambda>c. cityID c \<noteq> cid) cs)"
      by (rule Cons.IH [OF k'(3) k'(1) k'(2)])
    with Suc neq show ?thesis by (simp add: purgeCity_def)
  qed
qed

lemma deleteCity_cities:
  assumes "distinct (map cityID (cities g))" and "x \<in> cityIDs g"
  shows "deleteCity g x =
           (g\<lparr>cities := map (purgeCity x) (filter (\<lambda>c. cityID c \<noteq> x) (cities g))\<rparr>, 1)"
proof -
  from assms(2) have mem: "x \<in> cityID ` set (cities g)" by (simp add: cityIDs_def)
  let ?k = "nat (findCityIndex g x)"
  from findCityIndex_some [OF mem] have k: "0 \<le> findCityIndex g x" "?k < length (cities g)"
    "cityID (cities g ! ?k) = x" by auto
  from k(1) have ne: "findCityIndex g x \<noteq> -1" by simp
  from purgeEdges_remove [OF assms(1) k(2) k(3), of 0] ne show ?thesis
    by (simp add: deleteCity_def Let_def)
qed

subsection \<open>addRoad\<close>

lemma updateEdge_None: "updateEdge t d es = None \<longleftrightarrow> t \<notin> destCityID ` set es"
  by (induction es) (auto split: option.splits)

lemma updateEdge_Some:
  "updateEdge t d es = Some es' \<Longrightarrow>
     map destCityID es' = map destCityID es \<and>
     (\<forall>e' \<in> set es'. e' \<in> set es \<or> (destCityID e' = t \<and> distance e' = d))"
  by (induction es arbitrary: es') (auto split: option.splits if_splits)

lemma updateEdge_weight:
  "updateEdge t d es = Some es' \<Longrightarrow> distinct (map destCityID es) \<Longrightarrow>
     map distance (filter (\<lambda>e. destCityID e = t) es') = [d]"
proof (induction es arbitrary: es')
  case Nil
  then show ?case by simp
next
  case (Cons e es)
  show ?case
  proof (cases "destCityID e = t")
    case True
    with Cons.prems have "es' = e\<lparr>distance := d\<rparr> # es" and "t \<notin> destCityID ` set es" by auto
    then show ?thesis using True by (auto simp: filter_empty_conv image_iff)
  next
    case False
    with Cons.prems obtain es'' where "updateEdge t d es = Some es''" "es' = e # es''"
      by (auto split: option.splits)
    with Cons.IH [of es''] Cons.prems False show ?thesis by simp
  qed
qed

lemma roads_single:
  assumes "distinct (map cityID cs)" and "k < length cs" and "cityID (cs ! k) = a"
  shows "concat (map (\<lambda>c. if cityID c = a
                            then map distance (filter (\<lambda>e. destCityID e = b) (adjList c))
                            else []) cs)
         = map distance (filter (\<lambda>e. destCityID e = b) (adjList (cs ! k)))"
  using assms
proof (induction cs arbitrary: k)
  case Nil
  then show ?case by simp
next
  case (Cons c cs)
  show ?case
  proof (cases k)
    case 0
    with Cons.prems have "cityID c = a" and "\<forall>c' \<in> set cs. cityID c' \<noteq> a"
      by (auto simp: image_iff)
    then have "concat (map (\<lambda>c. if cityID c = a
                            then map distance (filter (\<lambda>e. destCityID e = b) (adjList c))
                            else []) cs) = []"
      by (induction cs) auto
    with 0 \<open>cityID c = a\<close> show ?thesis by simp
  next
    case (Suc k')
    with Cons.prems have k': "k' < length cs" "cityID (cs ! k') = a" "distinct (map cityID cs)"
      by auto
    from k' Cons.prems(1) have "cityID c \<noteq> a"
      by (metis distinct.simps(2) image_eqI list.simps(9) list.set_map nth_mem)
    with Suc Cons.IH [OF k'(3) k'(1) k'(2)] show ?thesis by simp
  qed
qed

text \<open>
  One successful \<open>addRoad\<close>: the identifiers and the invariants stay, and the graph then
  holds exactly one edge from \<open>a\<close> to \<open>b\<close>, of the given weight.
\<close>

lemma addRoad_once:
  assumes inv: "graph_inv g" and a: "a \<in> cityIDs g" and b: "b \<in> cityIDs g" and w: "0 < w"
  shows "snd (addRoad g a b w) = 1"
    and "map cityID (cities (fst (addRoad g a b w))) = map cityID (cities g)"
    and "graph_inv (fst (addRoad g a b w))"
    and "roads (fst (addRoad g a b w)) a b = [w]"
proof -
  let ?cs = "cities g"
  let ?k = "nat (findCityIndex g a)"
  let ?c = "?cs ! ?k"
  from a have amem: "a \<in> cityID ` set ?cs" by (simp add: cityIDs_def)
  from b have bmem: "b \<in> cityID ` set ?cs" by (simp add: cityIDs_def)
  from findCityIndex_some [OF amem] have k: "0 \<le> findCityIndex g a" "?k < length ?cs"
    "cityID ?c = a" by auto
  from findCityIndex_some(1) [OF bmem] have kb: "findCityIndex g b \<noteq> -1" by simp
  from k(1) have ka: "findCityIndex g a \<noteq> -1" by simp
  from inv have dist: "distinct (map cityID ?cs)" by (simp add: graph_inv_def)
  from k(2) have cmem: "?c \<in> set ?cs" by simp
  with inv have cd: "distinct (map destCityID (adjList ?c))"
    and ce: "\<forall>e \<in> set (adjList ?c). destCityID e \<in> cityIDs g \<and> 0 < distance e"
    by (auto simp: graph_inv_def)
  define es' where "es' = (case updateEdge b w (adjList ?c) of Some es \<Rightarrow> es
                           | None \<Rightarrow> \<lparr>destCityID = b, distance = w\<rparr> # adjList ?c)"
  define g' where "g' = g\<lparr>cities := ?cs[?k := ?c\<lparr>adjList := es'\<rparr>]\<rparr>"
  have res: "addRoad g a b w = (g', 1)"
    using ka kb w by (simp add: addRoad_def Let_def g'_def es'_def split: option.splits)
  have ids: "map cityID (cities g') = map cityID ?cs"
    using k by (simp add: g'_def map_update list_update_same_conv)
  have es'_props: "distinct (map destCityID es')
      \<and> (\<forall>e \<in> set es'. destCityID e \<in> cityIDs g \<and> 0 < distance e)
      \<and> map distance (filter (\<lambda>e. destCityID e = b) es') = [w]"
  proof (cases "updateEdge b w (adjList ?c)")
    case None
    then have "b \<notin> destCityID ` set (adjList ?c)" by (simp add: updateEdge_None)
    then have "filter (\<lambda>e. destCityID e = b) (adjList ?c) = []"
      by (auto simp: filter_empty_conv)
    with None cd ce b w \<open>b \<notin> destCityID ` set (adjList ?c)\<close> show ?thesis
      by (simp add: es'_def)
  next
    case (Some es)
    from updateEdge_Some [OF Some] updateEdge_weight [OF Some cd] cd ce b w Some
    show ?thesis by (auto simp: es'_def)
  qed
  have ids': "cityIDs g' = cityIDs g"
    using ids by (metis cityIDs_def list.set_map)
  have inv': "graph_inv g'"
    unfolding graph_inv_def
  proof (intro conjI ballI)
    show "distinct (map cityID (cities g'))" using ids dist by simp
  next
    fix c assume "c \<in> set (cities g')"
    then have c: "c = ?c\<lparr>adjList := es'\<rparr> \<or> c \<in> set ?cs"
      by (auto simp: g'_def dest: set_update_subset_insert [THEN subsetD])
    from c es'_props inv show "distinct (map destCityID (adjList c))"
      by (auto simp: graph_inv_def)
    fix e assume "e \<in> set (adjList c)"
    with c es'_props inv ids' show "destCityID e \<in> cityIDs g'" and "0 < distance e"
      by (auto simp: graph_inv_def)
  qed
  have "roads g' a b = map distance (filter (\<lambda>e. destCityID e = b) (adjList (cities g' ! ?k)))"
    unfolding roads_def
  proof (rule roads_single)
    show "distinct (map cityID (cities g'))" using ids dist by simp
    show "?k < length (cities g')" using k by (simp add: g'_def)
    show "cityID (cities g' ! ?k) = a" using k by (simp add: g'_def)
  qed
  also have "\<dots> = [w]" using es'_props k by (simp add: g'_def)
  finally have r: "roads g' a b = [w]" .
  from res show "snd (addRoad g a b w) = 1" by simp
  from res ids show "map cityID (cities (fst (addRoad g a b w))) = map cityID (cities g)" by simp
  from res inv' show "graph_inv (fst (addRoad g a b w))" by simp
  from res r show "roads (fst (addRoad g a b w)) a b = [w]" by simp
qed

lemma triangle_inv: "graph_inv triangle"
  by (simp add: graph_inv_def triangle_def cityIDs_def)

subsection \<open>Claims about the graph store\<close>

text \<open>
  C6.  In a graph with unique identifiers that holds a city \<open>x\<close>, \<open>deleteCity\<close>
  succeeds (returns 1); afterwards no adjacency list has an edge to \<open>x\<close>,
  \<open>findCityIndex x\<close> is the sentinel -1, and the remaining cities are exactly the other
  cities, in their previous order, each without its edges to \<open>x\<close>.
\<close>

theorem deleteCity_cascade:
  assumes "distinct (map cityID (cities g))" and "x \<in> cityIDs g"
  shows "snd (deleteCity g x) = 1 \<and>
         (\<forall>c \<in> set (cities (fst (deleteCity g x))). \<forall>e \<in> set (adjList c). destCityID e \<noteq> x) \<and>
         findCityIndex (fst (deleteCity g x)) x = -1 \<and>
         map cityID (cities (fst (deleteCity g x))) = filter (\<lambda>i. i \<noteq> x) (map cityID (cities g)) \<and>
         cities (fst (deleteCity g x))
           = map (purgeCity x) (filter (\<lambda>c. cityID c \<noteq> x) (cities g))"
proof -
  let ?g' = "g\<lparr>cities := map (purgeCity x) (filter (\<lambda>c. cityID c \<noteq> x) (cities g))\<rparr>"
  have res: "deleteCity g x = (?g', 1)" by (rule deleteCity_cities [OF assms])
  have edges: "\<forall>c \<in> set (cities ?g'). \<forall>e \<in> set (adjList c). destCityID e \<noteq> x"
    by (auto simp: purgeCity_def removeEdgesTo_filter)
  have idmap: "map cityID (cities ?g') = filter (\<lambda>i. i \<noteq> x) (map cityID (cities g))"
    by (simp add: filter_map comp_def purgeCity_def)
  then have "x \<notin> cityID ` set (cities ?g')"
    by (metis (mono_tags, lifting) list.set_map mem_Collect_eq set_filter)
  then have "findCityIndex ?g' x = -1" by (simp add: findCityIndex_none)
  with res edges idmap show ?thesis by simp
qed

theorem deleteCity_cascade_witness:
  "distinct (map cityID (cities triangle)) \<and> 2 \<in> cityIDs triangle \<and>
   snd (deleteCity triangle 2) = 1 \<and>
   findCityIndex (fst (deleteCity triangle 2)) 2 = -1 \<and>
   cities (fst (deleteCity triangle 2)) =
     [\<lparr>cityID = 1, cityName = ''A'', city_x = 0, city_y = 0, adjList = []\<rparr>,
      \<lparr>cityID = 3, cityName = ''C'', city_x = 6, city_y = 8,
       adjList = [\<lparr>destCityID = 1, distance = 11\<rparr>]\<rparr>]"
proof -
  have h1: "distinct (map cityID (cities triangle))" by (simp add: triangle_def)
  have h2: "2 \<in> cityIDs triangle" by (simp add: triangle_def cityIDs_def)
  from deleteCity_cascade [OF h1 h2] h1 h2 show ?thesis
    by (simp add: triangle_def purgeCity_def)
qed

text \<open>
  C7.  In a graph that satisfies the data-model invariants and holds cities \<open>a\<close> and
  \<open>b\<close>, two calls \<open>addRoad a b w1\<close> and \<open>addRoad a b w2\<close> with positive weights both
  succeed, and afterwards the graph has exactly one edge from \<open>a\<close> to \<open>b\<close>, of weight
  \<open>w2\<close>.
\<close>

theorem addRoad_twice:
  assumes "graph_inv g" and "a \<in> cityIDs g" and "b \<in> cityIDs g" and "0 < w1" and "0 < w2"
  shows "snd (addRoad g a b w1) = 1 \<and>
         snd (addRoad (fst (addRoad g a b w1)) a b w2) = 1 \<and>
         roads (fst (addRoad (fst (addRoad g a b w1)) a b w2)) a b = [w2]"
proof -
  let ?g1 = "fst (addRoad g a b w1)"
  note first = addRoad_once [OF assms(1) assms(2) assms(3) assms(4)]
  from first(2) have ids: "cityIDs ?g1 = cityIDs g"
    by (metis cityIDs_def list.set_map)
  from assms(2,3) ids have a1: "a \<in> cityIDs ?g1" and b1: "b \<in> cityIDs ?g1" by simp_all
  note second = addRoad_once [OF first(3) a1 b1 assms(5)]
  from first(1) second(1) second(4) show ?thesis by simp
qed

theorem addRoad_twice_witness:
  "graph_inv triangle \<and> 1 \<in> cityIDs triangle \<and> 3 \<in> cityIDs triangle \<and> (0::int) < 9 \<and> (0::int) < 4 \<and>
   snd (addRoad triangle 1 3 9) = 1 \<and>
   snd (addRoad (fst (addRoad triangle 1 3 9)) 1 3 4) = 1 \<and>
   roads (fst (addRoad (fst (addRoad triangle 1 3 9)) 1 3 4)) 1 3 = [4]"
proof -
  have h2: "1 \<in> cityIDs triangle" and h3: "3 \<in> cityIDs triangle"
    by (simp_all add: triangle_def cityIDs_def)
  have h4: "(0::int) < 9" and h5: "(0::int) < 4" by simp_all
  from addRoad_twice [OF triangle_inv h2 h3 h4 h5] triangle_inv h2 h3 show ?thesis by simp
qed

text \<open>
  C8 (as the code has it).  \<open>addCity\<close> with an identifier already present returns 0 and
  leaves the graph unchanged.  With a new identifier, in a graph of positive capacity
  whose count is within the capacity, it returns the success flag 1; the new graph has
  the city appended with an empty adjacency list (the name cut to 49 characters), the
  capacity doubled exactly when the array was full, and the new city in slot
  \<open>numCities g\<close>.
\<close>

theorem addCity_spec:
  "(findCityIndex g cid \<noteq> -1 \<longrightarrow> addCity g cid name x y = Inr (g, 0)) \<and>
   (findCityIndex g cid = -1 \<and> numCities g \<le> capacity g \<and> 0 < capacity g \<longrightarrow>
      addCity g cid name x y =
        Inr (g\<lparr>cities := cities g @
                   [\<lparr>cityID = cid, cityName = take 49 name, city_x = x, city_y = y, adjList = []\<rparr>],
               capacity := (if numCities g = capacity g then 2 * capacity g else capacity g)\<rparr>,
             1) \<and>
      findCityIndex
        (g\<lparr>cities := cities g @
                   [\<lparr>cityID = cid, cityName = take 49 name, city_x = x, city_y = y, adjList = []\<rparr>],
            capacity := (if numCities g = capacity g then 2 * capacity g else capacity g)\<rparr>) cid
        = int (numCities g))"
proof (intro conjI impI)
  assume "findCityIndex g cid \<noteq> -1"
  then show "addCity g cid name x y = Inr (g, 0)" by (simp add: addCity_def)
next
  assume h: "findCityIndex g cid = -1 \<and> numCities g \<le> capacity g \<and> 0 < capacity g"
  then show "addCity g cid name x y =
        Inr (g\<lparr>cities := cities g @
                   [\<lparr>cityID = cid, cityName = take 49 name, city_x = x, city_y = y, adjList = []\<rparr>],
               capacity := (if numCities g = capacity g then 2 * capacity g else capacity g)\<rparr>,
             1)"
    by (auto simp: addCity_def Let_def MAX_CITY_NAME_def)
next
  assume h: "findCityIndex g cid = -1 \<and> numCities g \<le> capacity g \<and> 0 < capacity g"
  let ?new = "\<lparr>cityID = cid, cityName = take 49 name, city_x = x, city_y = y, adjList = []\<rparr>"
  from h have notin: "cid \<notin> cityID ` set (cities g)" by (simp add: findCityIndex_none)
  have "find_from (cs @ [?new]) cid i = i + int (length cs)" if "cid \<notin> cityID ` set cs" for cs i
    using that by (induction cs arbitrary: i) auto
  from this [OF notin, of 0]
  show "findCityIndex
        (g\<lparr>cities := cities g @ [?new],
            capacity := (if numCities g = capacity g then 2 * capacity g else capacity g)\<rparr>) cid
        = int (numCities g)"
    by (simp add: findCityIndex_def numCities_def)
qed

theorem addCity_spec_witness:
  "findCityIndex triangle 1 \<noteq> -1 \<and> addCity triangle 1 ''Z'' 9 9 = Inr (triangle, 0) \<and>
   findCityIndex triangle 4 = -1 \<and> numCities triangle \<le> capacity triangle \<and>
   0 < capacity triangle \<and>
   addCity triangle 4 ''D'' 9 9 =
     Inr (triangle\<lparr>cities := cities triangle @
                   [\<lparr>cityID = 4, cityName = ''D'', city_x = 9, city_y = 9, adjList = []\<rparr>],
                  capacity := 6\<rparr>, 1)"
proof -
  have h1: "findCityIndex triangle 1 \<noteq> -1" by (simp add: findCityIndex_def triangle_def)
  have h2: "findCityIndex triangle 4 = -1 \<and> numCities triangle \<le> capacity triangle \<and>
            0 < capacity triangle"
    by (simp add: findCityIndex_def triangle_def numCities_def)
  have cap: "numCities triangle = capacity triangle" by (simp add: numCities_def triangle_def)
  have six: "capacity triangle = 3" by (simp add: triangle_def)
  from addCity_spec [of triangle 1 "''Z''" 9 9] h1
  have a: "addCity triangle 1 ''Z'' 9 9 = Inr (triangle, 0)" by blast
  from addCity_spec [of triangle 4 "''D''" 9 9] h2
  have b: "addCity triangle 4 ''D'' 9 9 =
     Inr (triangle\<lparr>cities := cities triangle @
                   [\<lparr>cityID = 4, cityName = take 49 ''D'', city_x = 9, city_y = 9, adjList = []\<rparr>],
                  capacity := (if numCities triangle = capacity triangle
                               then 2 * capacity triangle else capacity triangle)\<rparr>, 1)"
    by blast
  from a b h1 h2 cap six show ?thesis by simp
qed

text \<open>
  C8 as stated in the specification says that \<open>addCity\<close> returns the assigned slot.  On
  the empty graph of capacity 50 the new city goes to slot 0, and the call returns 1.
\<close>

theorem addCity_slot_counterexample:
  "addCity (createGraph 50) 7 ''A'' 0 0 =
     Inr (\<lparr>cities = [\<lparr>cityID = 7, cityName = ''A'', city_x = 0, city_y = 0, adjList = []\<rparr>],
           capacity = 50\<rparr>, 1) \<and>
   findCityIndex
     \<lparr>cities = [\<lparr>cityID = 7, cityName = ''A'', city_x = 0, city_y = 0, adjList = []\<rparr>],
      capacity = 50\<rparr> 7 = 0"
  by (simp add: addCity_def createGraph_def findCityIndex_def numCities_def Let_def
        MAX_CITY_NAME_def)

section \<open>Properties of the indexed min-heap\<close>

text \<open>
  The structure invariant of a heap: the size is within the capacity, which is the length
  of the node array; every non-root node has a score no smaller than its parent's; every
  node in use has an identifier within the position array, whose entry for it is the
  node's slot.  \<open>resident h\<close> is the set of nodes in use.
\<close>

definition heap_wf :: "minheap \<Rightarrow> bool" where
  "heap_wf h \<longleftrightarrow> heap_size h \<le> heap_capacity h \<and> length (nodes h) = heap_capacity h"

definition heap_ordered :: "minheap \<Rightarrow> bool" where
  "heap_ordered h \<longleftrightarrow>
     (\<forall>i. 0 < i \<and> i < heap_size h \<longrightarrow> fScore (nodes h ! ((i - 1) div 2)) \<le> fScore (nodes h ! i))"

definition pos_consistent :: "minheap \<Rightarrow> bool" where
  "pos_consistent h \<longleftrightarrow>
     (\<forall>i < heap_size h. pos_ok (node_cityID (nodes h ! i)) \<and>
                          pos h (node_cityID (nodes h ! i)) = int i)"

definition resident :: "minheap \<Rightarrow> heapnode set" where
  "resident h = set (take (heap_size h) (nodes h))"

definition heap_inv :: "minheap \<Rightarrow> bool" where
  "heap_inv h \<longleftrightarrow> heap_wf h \<and> heap_ordered h \<and> pos_consistent h"

lemma resident_nth: "heap_wf h \<Longrightarrow> i < heap_size h \<Longrightarrow> nodes h ! i \<in> resident h"
  by (auto simp: resident_def heap_wf_def in_set_conv_nth intro!: exI [of _ i])

lemma resident_iff:
  "heap_wf h \<Longrightarrow> n \<in> resident h \<longleftrightarrow> (\<exists>i < heap_size h. nodes h ! i = n)"
  by (auto simp: resident_def heap_wf_def in_set_conv_nth)

lemma pos_consistent_inj:
  "pos_consistent h \<Longrightarrow> i < heap_size h \<Longrightarrow> j < heap_size h \<Longrightarrow>
     node_cityID (nodes h ! i) = node_cityID (nodes h ! j) \<Longrightarrow> i = j"
  by (metis pos_consistent_def of_nat_eq_iff)

lemma swapPos_props:
  assumes wf: "heap_wf h" and pc: "pos_consistent h"
    and a: "a < heap_size h" and b: "b < heap_size h"
  shows "\<exists>h'. swapPos h a b = Inr h' \<and> heap_wf h' \<and> pos_consistent h' \<and>
           heap_size h' = heap_size h \<and> heap_capacity h' = heap_capacity h \<and>
           nodes h' = swapHeapNodes (nodes h) a b \<and>
           resident h' = resident h \<and>
           (\<forall>c. c \<notin> node_cityID ` resident h \<longrightarrow> pos h' c = pos h c)"
proof -
  let ?ia = "node_cityID (nodes h ! a)" and ?ib = "node_cityID (nodes h ! b)"
  define h' where "h' = h\<lparr>pos := (pos h)(?ia := int b, ?ib := int a),
                           nodes := swapHeapNodes (nodes h) a b\<rparr>"
  from pc a b have ok: "pos_ok ?ia" "pos_ok ?ib" by (auto simp: pos_consistent_def)
  then have eq: "swapPos h a b = Inr h'" by (simp add: swapPos_def h'_def)
  from wf a b have la: "a < length (nodes h)" and lb: "b < length (nodes h)"
    by (auto simp: heap_wf_def)
  have wf': "heap_wf h'" using wf by (simp add: heap_wf_def h'_def swapHeapNodes_def)
  have nth: "nodes h' ! i = (if i = b then nodes h ! a else if i = a then nodes h ! b else nodes h ! i)"
    if "i < length (nodes h)" for i
    using that la lb by (simp add: h'_def swapHeapNodes_def nth_list_update)
  have ne: "?ia \<noteq> ?ib" if "a \<noteq> b"
    using pos_consistent_inj [OF pc a b] that by auto
  have pc': "pos_consistent h'"
    unfolding pos_consistent_def
  proof (intro allI impI)
    fix i assume "i < heap_size h'"
    then have i: "i < heap_size h" by (simp add: h'_def)
    with wf have il: "i < length (nodes h)" by (simp add: heap_wf_def)
    from pc i have pi: "pos_ok (node_cityID (nodes h ! i))" "pos h (node_cityID (nodes h ! i)) = int i"
      by (auto simp: pos_consistent_def)
    show "pos_ok (node_cityID (nodes h' ! i)) \<and> pos h' (node_cityID (nodes h' ! i)) = int i"
    proof (cases "i = b")
      case True
      then show ?thesis using nth [OF il] ok ne pi
        by (cases "a = b") (auto simp: h'_def)
    next
      case False
      show ?thesis
      proof (cases "i = a")
        case True
        with False nth [OF il] ok ne show ?thesis
          by (auto simp: h'_def)
      next
        case na: False
        from pos_consistent_inj [OF pc i a] pos_consistent_inj [OF pc i b] False na
        have "node_cityID (nodes h ! i) \<noteq> ?ia" "node_cityID (nodes h ! i) \<noteq> ?ib" by auto
        with False na nth [OF il] pi show ?thesis by (simp add: h'_def)
      qed
    qed
  qed
  have "mset (take (heap_size h) (swapHeapNodes (nodes h) a b)) = mset (take (heap_size h) (nodes h))"
  proof -
    have "take (heap_size h) (swapHeapNodes (nodes h) a b)
          = (take (heap_size h) (nodes h))[a := take (heap_size h) (nodes h) ! b,
                                           b := take (heap_size h) (nodes h) ! a]"
      using a b by (simp add: swapHeapNodes_def take_update_swap)
    also have "mset \<dots> = mset (take (heap_size h) (nodes h))"
      using a b wf by (intro mset_swap) (auto simp: heap_wf_def)
    finally show ?thesis .
  qed
  then have "set (take (heap_size h) (swapHeapNodes (nodes h) a b)) = set (take (heap_size h) (nodes h))"
    by (rule mset_eq_setD)
  then have res: "resident h' = resident h"
    by (simp add: resident_def h'_def)
  have frame: "\<forall>c. c \<notin> node_cityID ` resident h \<longrightarrow> pos h' c = pos h c"
    using resident_nth [OF wf a] resident_nth [OF wf b] by (auto simp: h'_def)
  from eq wf' pc' res frame show ?thesis by (auto simp: h'_def)
qed

definition up_ok :: "minheap \<Rightarrow> nat \<Rightarrow> bool" where
  "up_ok h k \<longleftrightarrow>
     (\<forall>i. 0 < i \<and> i < heap_size h \<and> i \<noteq> k \<longrightarrow>
          fScore (nodes h ! ((i - 1) div 2)) \<le> fScore (nodes h ! i)) \<and>
     (\<forall>i. 0 < i \<and> i < heap_size h \<and> (i - 1) div 2 = k \<and> 0 < k \<longrightarrow>
          fScore (nodes h ! ((k - 1) div 2)) \<le> fScore (nodes h ! i))"

definition down_ok :: "minheap \<Rightarrow> nat \<Rightarrow> bool" where
  "down_ok h k \<longleftrightarrow>
     (\<forall>i. 0 < i \<and> i < heap_size h \<and> (i - 1) div 2 \<noteq> k \<longrightarrow>
          fScore (nodes h ! ((i - 1) div 2)) \<le> fScore (nodes h ! i)) \<and>
     (\<forall>i. 0 < i \<and> i < heap_size h \<and> (i - 1) div 2 = k \<and> 0 < k \<longrightarrow>
          fScore (nodes h ! ((k - 1) div 2)) \<le> fScore (nodes h ! i))"

lemma up_step:
  fixes key key' :: "nat \<Rightarrow> int"
  assumes up1: "\<And>i. 0 < i \<Longrightarrow> i < n \<Longrightarrow> i \<noteq> k \<Longrightarrow> key ((i - 1) div 2) \<le> key i"
    and up2: "\<And>i. 0 < i \<Longrightarrow> i < n \<Longrightarrow> (i - 1) div 2 = k \<Longrightarrow> 0 < k \<Longrightarrow> key ((k - 1) div 2) \<le> key i"
    and k: "0 < k" "k < n" and lt: "key k < key ((k - 1) div 2)"
    and key': "\<And>i. i < n \<Longrightarrow> key' i = (if i = (k - 1) div 2 then key k
                                        else if i = k then key ((k - 1) div 2) else key i)"
  shows "\<And>i. 0 < i \<Longrightarrow> i < n \<Longrightarrow> i \<noteq> (k - 1) div 2 \<Longrightarrow> key' ((i - 1) div 2) \<le> key' i"
    and "\<And>i. 0 < i \<Longrightarrow> i < n \<Longrightarrow> (i - 1) div 2 = (k - 1) div 2 \<Longrightarrow> 0 < (k - 1) div 2 \<Longrightarrow>
            key' (((k - 1) div 2 - 1) div 2) \<le> key' i"
proof -
  define p where "p = (k - 1) div 2"
  have pk: "p < k" using k by (simp add: p_def)
  have pn: "p < n" using pk k by simp
  {
    fix i assume i: "0 < i" "i < n" "i \<noteq> p"
    define q where "q = (i - 1) div 2"
    have qi: "q < i" using i by (simp add: q_def)
    have qn: "q < n" using qi i by simp
    show "key' ((i - 1) div 2) \<le> key' i"
    proof (cases "i = k")
      case True
      then have "key' q = key k" "key' i = key p"
        using key' [OF qn] key' [OF i(2)] pk by (auto simp: q_def p_def)
      with lt show ?thesis by (simp add: q_def p_def)
    next
      case False
      then have ki: "key' i = key i" using key' [OF i(2)] i(3) by (simp add: p_def)
      from up1 [OF i(1,2) False] have qle: "key q \<le> key i" by (simp add: q_def)
      show ?thesis
      proof (cases "q = p")
        case True
        then have "key' q = key k" using key' [OF qn] by (simp add: p_def)
        with True qle lt ki show ?thesis by (simp add: q_def p_def)
      next
        case qp: False
        show ?thesis
        proof (cases "q = k")
          case True
          then have "key' q = key p" using key' [OF qn] qp by (simp add: p_def)
          moreover from up2 [OF i(1,2) _ k(1)] True have "key p \<le> key i" by (simp add: q_def p_def)
          ultimately show ?thesis using ki by (simp add: q_def)
        next
          case False
          then have "key' q = key q" using key' [OF qn] qp by (simp add: p_def)
          with qle ki show ?thesis by (simp add: q_def)
        qed
      qed
    qed
  }
  {
    fix i assume i: "0 < i" "i < n" "(i - 1) div 2 = (k - 1) div 2" "0 < (k - 1) div 2"
    define pp where "pp = (p - 1) div 2"
    from i(4) have p0: "0 < p" by (simp add: p_def)
    have ppp: "pp < p" using p0 by (simp add: pp_def)
    then have ppn: "pp < n" using pn by simp
    from ppp pk have "pp \<noteq> p" "pp \<noteq> k" by auto
    then have kpp: "key' pp = key pp" using key' [OF ppn] by (simp add: p_def)
    from up1 [OF p0 pn] pk have ple: "key pp \<le> key p" by (simp add: pp_def)
    have ip: "i \<noteq> p" using i(1,3) by (auto simp: p_def)
    show "key' (((k - 1) div 2 - 1) div 2) \<le> key' i"
    proof (cases "i = k")
      case True
      then have "key' i = key p" using key' [OF i(2)] pk by (auto simp: p_def)
      with kpp ple show ?thesis by (simp add: pp_def p_def)
    next
      case False
      then have "key' i = key i" using key' [OF i(2)] ip by (simp add: p_def)
      moreover from up1 [OF i(1,2) False] i(3) have "key p \<le> key i" by (simp add: p_def)
      ultimately show ?thesis using kpp ple by (simp add: pp_def p_def)
    qed
  }
qed

lemma down_step:
  fixes key key' :: "nat \<Rightarrow> int"
  assumes d1: "\<And>i. 0 < i \<Longrightarrow> i < n \<Longrightarrow> (i - 1) div 2 \<noteq> k \<Longrightarrow> key ((i - 1) div 2) \<le> key i"
    and d2: "\<And>i. 0 < i \<Longrightarrow> i < n \<Longrightarrow> (i - 1) div 2 = k \<Longrightarrow> 0 < k \<Longrightarrow> key ((k - 1) div 2) \<le> key i"
    and s: "s < n" "0 < s" "(s - 1) div 2 = k" and lt: "key s < key k"
    and least: "\<And>i. 0 < i \<Longrightarrow> i < n \<Longrightarrow> (i - 1) div 2 = k \<Longrightarrow> key s \<le> key i"
    and key': "\<And>i. i < n \<Longrightarrow> key' i = (if i = k then key s else if i = s then key k else key i)"
  shows "\<And>i. 0 < i \<Longrightarrow> i < n \<Longrightarrow> (i - 1) div 2 \<noteq> s \<Longrightarrow> key' ((i - 1) div 2) \<le> key' i"
    and "\<And>i. 0 < i \<Longrightarrow> i < n \<Longrightarrow> (i - 1) div 2 = s \<Longrightarrow> 0 < s \<Longrightarrow>
            key' ((s - 1) div 2) \<le> key' i"
proof -
  have ks: "k < s" using s by auto
  have kn: "k < n" using ks s by simp
  {
    fix i assume i: "0 < i" "i < n" "(i - 1) div 2 \<noteq> s"
    define q where "q = (i - 1) div 2"
    have qi: "q < i" using i by (simp add: q_def)
    have qn: "q < n" using qi i by simp
    have qs: "q \<noteq> s" using i by (simp add: q_def)
    show "key' ((i - 1) div 2) \<le> key' i"
    proof (cases "i = s")
      case True
      then have "key' i = key k" "key' q = key s"
        using key' [OF i(2)] key' [OF qn] ks s(3) by (auto simp: q_def)
      with lt show ?thesis by (simp add: q_def)
    next
      case False
      show ?thesis
      proof (cases "i = k")
        case True
        then have k0: "0 < k" using i by simp
        have qk: "q \<noteq> k" using qi True by simp
        have "key' i = key s" using key' [OF i(2)] True by simp
        moreover have "key' q = key q" using key' [OF qn] qk qs by simp
        moreover from d2 [OF s(2) s(1) s(3) k0] True have "key q \<le> key s" by (simp add: q_def)
        ultimately show ?thesis by (simp add: q_def)
      next
        case ik: False
        then have ki: "key' i = key i" using key' [OF i(2)] False by simp
        show ?thesis
        proof (cases "q = k")
          case True
          then have "key' q = key s" using key' [OF qn] by simp
          moreover from least [OF i(1,2)] True have "key s \<le> key i" by (simp add: q_def)
          ultimately show ?thesis using ki by (simp add: q_def)
        next
          case False
          then have "key' q = key q" using key' [OF qn] qs by simp
          moreover from d1 [OF i(1,2)] False have "key q \<le> key i" by (simp add: q_def)
          ultimately show ?thesis using ki by (simp add: q_def)
        qed
      qed
    qed
  }
  {
    fix i assume i: "0 < i" "i < n" "(i - 1) div 2 = s" "0 < s"
    have si: "s < i" using i by auto
    then have "i \<noteq> s" "i \<noteq> k" using ks by auto
    then have "key' i = key i" using key' [OF i(2)] by simp
    moreover have "key' ((s - 1) div 2) = key s" using key' [OF kn] s(3) by simp
    moreover have "key s \<le> key i" using d1 [OF i(1,2)] i(3) ks by simp
    ultimately show "key' ((s - 1) div 2) \<le> key' i" by simp
  }
qed

definition same_content :: "minheap \<Rightarrow> minheap \<Rightarrow> bool" where
  "same_content h h' \<longleftrightarrow>
     heap_size h' = heap_size h \<and> heap_capacity h' = heap_capacity h \<and>
     resident h' = resident h \<and>
     (\<forall>c. c \<notin> node_cityID ` resident h \<longrightarrow> pos h' c = pos h c)"

lemma same_content_refl: "same_content h h"
  by (simp add: same_content_def)

lemma same_content_trans: "same_content h h1 \<Longrightarrow> same_content h1 h2 \<Longrightarrow> same_content h h2"
  by (simp add: same_content_def)

lemma swapPos_ok:
  assumes "heap_wf h" and "pos_consistent h" and "a < heap_size h" and "b < heap_size h"
  obtains h' where "swapPos h a b = Inr h'" and "heap_wf h'" and "pos_consistent h'"
    and "same_content h h'" and "nodes h' = swapHeapNodes (nodes h) a b"
  using swapPos_props [OF assms] unfolding same_content_def by blast

lemma swap_nth:
  "a < length ns \<Longrightarrow> b < length ns \<Longrightarrow> i < length ns \<Longrightarrow>
     swapHeapNodes ns a b ! i = (if i = b then ns ! a else if i = a then ns ! b else ns ! i)"
  by (simp add: swapHeapNodes_def nth_list_update)

lemma heap_ordered_root:
  assumes "heap_ordered h" and "i < heap_size h"
  shows "fScore (nodes h ! 0) \<le> fScore (nodes h ! i)"
  using assms(2)
proof (induction i rule: less_induct)
  case (less i)
  show ?case
  proof (cases "i = 0")
    case True
    then show ?thesis by simp
  next
    case False
    then have i0: "0 < i" by simp
    have lt: "(i - 1) div 2 < i" using i0 by simp
    with less.prems have "(i - 1) div 2 < heap_size h" by simp
    from less.IH [OF lt this] have "fScore (nodes h ! 0) \<le> fScore (nodes h ! ((i - 1) div 2))" .
    also from assms(1) i0 less.prems have "\<dots> \<le> fScore (nodes h ! i)"
      by (simp add: heap_ordered_def)
    finally show ?thesis .
  qed
qed

lemma bubbleUp_correct:
  "heap_wf h \<Longrightarrow> pos_consistent h \<Longrightarrow> k < heap_size h \<Longrightarrow> up_ok h k \<Longrightarrow>
     \<exists>h'. bubbleUp h k = Inr h' \<and> heap_inv h' \<and> same_content h h'"
proof (induction h k rule: bubbleUp.induct)
  case (1 h i)
  let ?p = "(i - 1) div 2"
  note wf = "1.prems"(1) and pc = "1.prems"(2) and i = "1.prems"(3) and up = "1.prems"(4)
  show ?case
  proof (cases "0 < i \<and> fScore (nodes h ! i) < fScore (nodes h ! ?p)")
    case False
    have "heap_ordered h"
      unfolding heap_ordered_def
    proof (intro allI impI)
      fix j assume j: "0 < j \<and> j < heap_size h"
      show "fScore (nodes h ! ((j - 1) div 2)) \<le> fScore (nodes h ! j)"
      proof (cases "j = i")
        case True
        with False j show ?thesis by auto
      next
        case ne: False
        with up j show ?thesis by (simp add: up_ok_def)
      qed
    qed
    with wf pc have "heap_inv h" by (simp add: heap_inv_def)
    moreover from False have "bubbleUp h i = Inr h" by (auto simp: bubbleUp.simps [of h i])
    ultimately show ?thesis using same_content_refl by blast
  next
    case True
    then have i0: "0 < i" and lt: "fScore (nodes h ! i) < fScore (nodes h ! ?p)" by auto
    have pi: "?p < i" using i0 by simp
    with i have p: "?p < heap_size h" by simp
    from swapPos_ok [OF wf pc i p] obtain h1 where
      h1: "swapPos h i ?p = Inr h1" and wf1: "heap_wf h1" and pc1: "pos_consistent h1"
      and sc1: "same_content h h1" and n1: "nodes h1 = swapHeapNodes (nodes h) i ?p"
      by blast
    from sc1 have sz1: "heap_size h1 = heap_size h" by (simp add: same_content_def)
    from wf have len: "heap_size h \<le> length (nodes h)" by (simp add: heap_wf_def)
    have key1: "fScore (nodes h1 ! j) =
        (if j = ?p then fScore (nodes h ! i) else if j = i then fScore (nodes h ! ?p)
         else fScore (nodes h ! j))" if "j < heap_size h" for j
      using that i p len by (simp add: n1 swap_nth)
    from up have u1: "\<And>j. 0 < j \<Longrightarrow> j < heap_size h \<Longrightarrow> j \<noteq> i \<Longrightarrow>
          fScore (nodes h ! ((j - 1) div 2)) \<le> fScore (nodes h ! j)"
      and u2: "\<And>j. 0 < j \<Longrightarrow> j < heap_size h \<Longrightarrow> (j - 1) div 2 = i \<Longrightarrow> 0 < i \<Longrightarrow>
          fScore (nodes h ! ((i - 1) div 2)) \<le> fScore (nodes h ! j)"
      by (auto simp: up_ok_def)
    note st = up_step [where key = "\<lambda>j. fScore (nodes h ! j)"
        and key' = "\<lambda>j. fScore (nodes h1 ! j)" and n = "heap_size h" and k = i,
        OF u1 u2 i0 i lt key1]
    have up1: "up_ok h1 ?p"
      unfolding up_ok_def sz1 using st by blast
    from p sz1 have p1: "?p < heap_size h1" by simp
    from "1.IH" [OF True h1 wf1 pc1 p1 up1] obtain h' where
      h': "bubbleUp h1 ?p = Inr h'" "heap_inv h'" "same_content h1 h'" by blast
    from True h1 h'(1) have "bubbleUp h i = Inr h'" by (simp add: bubbleUp.simps [of h i])
    with h'(2) same_content_trans [OF sc1 h'(3)] show ?thesis by blast
  qed
qed

lemma child_iff: "0 < i \<and> (i - 1) div 2 = k \<longleftrightarrow> i = 2 * k + 1 \<or> i = 2 * k + 2" for i k :: nat
  by (cases i) auto

lemma smallestOf_same:
  assumes "smallestOf h k = k" and "0 < i" and "i < heap_size h" and "(i - 1) div 2 = k"
  shows "fScore (nodes h ! k) \<le> fScore (nodes h ! i)"
proof -
  from assms(2,4) have "i = 2 * k + 1 \<or> i = 2 * k + 2" using child_iff [of i k] by blast
  with assms(1,3) show ?thesis
    by (auto simp: smallestOf_def Let_def split: if_splits)
qed

lemma smallestOf_other:
  assumes "smallestOf h k \<noteq> k"
  shows "smallestOf h k < heap_size h" and "0 < smallestOf h k"
    and "(smallestOf h k - 1) div 2 = k"
    and "fScore (nodes h ! smallestOf h k) < fScore (nodes h ! k)"
    and "\<And>i. 0 < i \<Longrightarrow> i < heap_size h \<Longrightarrow> (i - 1) div 2 = k \<Longrightarrow>
           fScore (nodes h ! smallestOf h k) \<le> fScore (nodes h ! i)"
proof -
  from assms show "smallestOf h k < heap_size h" and "0 < smallestOf h k"
    and "(smallestOf h k - 1) div 2 = k"
    and "fScore (nodes h ! smallestOf h k) < fScore (nodes h ! k)"
    by (auto simp: smallestOf_def Let_def split: if_splits)
  fix i assume "0 < i" and i: "i < heap_size h" and "(i - 1) div 2 = k"
  then have "i = 2 * k + 1 \<or> i = 2 * k + 2" using child_iff [of i k] by blast
  with assms i show "fScore (nodes h ! smallestOf h k) \<le> fScore (nodes h ! i)"
    by (auto simp: smallestOf_def Let_def split: if_splits)
qed

lemma minHeapify_correct:
  "heap_wf h \<Longrightarrow> pos_consistent h \<Longrightarrow> k < heap_size h \<Longrightarrow> down_ok h k \<Longrightarrow>
     \<exists>h'. minHeapify h k = Inr h' \<and> heap_inv h' \<and> same_content h h'"
proof (induction h k rule: minHeapify.induct)
  case (1 h k)
  let ?s = "smallestOf h k"
  note wf = "1.prems"(1) and pc = "1.prems"(2) and k = "1.prems"(3) and dn = "1.prems"(4)
  from dn have d1: "\<And>j. 0 < j \<Longrightarrow> j < heap_size h \<Longrightarrow> (j - 1) div 2 \<noteq> k \<Longrightarrow>
          fScore (nodes h ! ((j - 1) div 2)) \<le> fScore (nodes h ! j)"
    and d2: "\<And>j. 0 < j \<Longrightarrow> j < heap_size h \<Longrightarrow> (j - 1) div 2 = k \<Longrightarrow> 0 < k \<Longrightarrow>
          fScore (nodes h ! ((k - 1) div 2)) \<le> fScore (nodes h ! j)"
    by (auto simp: down_ok_def)
  show ?case
  proof (cases "?s = k")
    case True
    have "heap_ordered h"
      unfolding heap_ordered_def
    proof (intro allI impI)
      fix j assume j: "0 < j \<and> j < heap_size h"
      show "fScore (nodes h ! ((j - 1) div 2)) \<le> fScore (nodes h ! j)"
      proof (cases "(j - 1) div 2 = k")
        case pk: True
        from smallestOf_same [OF True _ _ pk] j pk show ?thesis by simp
      next
        case False
        with d1 j show ?thesis by simp
      qed
    qed
    with wf pc have "heap_inv h" by (simp add: heap_inv_def)
    moreover from True have "minHeapify h k = Inr h" by (simp add: minHeapify.simps [of h k])
    ultimately show ?thesis using same_content_refl by blast
  next
    case False
    note so = smallestOf_other [OF False]
    from swapPos_ok [OF wf pc so(1) k] obtain h1 where
      h1: "swapPos h ?s k = Inr h1" and wf1: "heap_wf h1" and pc1: "pos_consistent h1"
      and sc1: "same_content h h1" and n1: "nodes h1 = swapHeapNodes (nodes h) ?s k"
      by blast
    from sc1 have sz1: "heap_size h1 = heap_size h" by (simp add: same_content_def)
    from wf have len: "heap_size h \<le> length (nodes h)" by (simp add: heap_wf_def)
    have key1: "fScore (nodes h1 ! j) =
        (if j = k then fScore (nodes h ! ?s) else if j = ?s then fScore (nodes h ! k)
         else fScore (nodes h ! j))" if "j < heap_size h" for j
      using that k so(1) len by (simp add: n1 swap_nth)
    note st = down_step [where key = "\<lambda>j. fScore (nodes h ! j)"
        and key' = "\<lambda>j. fScore (nodes h1 ! j)" and n = "heap_size h" and k = k and s = ?s,
        OF d1 d2 so(1) so(2) so(3) so(4) so(5) key1]
    have dn1: "down_ok h1 ?s"
      unfolding down_ok_def sz1 using st by blast
    from so(1) sz1 have s1: "?s < heap_size h1" by simp
    from "1.IH" [OF refl False h1 wf1 pc1 s1 dn1] obtain h' where
      h': "minHeapify h1 ?s = Inr h'" "heap_inv h'" "same_content h1 h'" by blast
    from False h1 h'(1) have "minHeapify h k = Inr h'" by (simp add: minHeapify.simps [of h k])
    with h'(2) same_content_trans [OF sc1 h'(3)] show ?thesis by blast
  qed
qed

lemma resident_distinct:
  assumes "heap_wf h" and "pos_consistent h" and "n \<in> resident h" and "m \<in> resident h"
    and "node_cityID n = node_cityID m"
  shows "n = m"
proof -
  from assms(1,3) obtain i where i: "i < heap_size h" "nodes h ! i = n" by (auto simp: resident_iff)
  from assms(1,4) obtain j where j: "j < heap_size h" "nodes h ! j = m" by (auto simp: resident_iff)
  have "node_cityID (nodes h ! i) = node_cityID (nodes h ! j)"
    using assms(5) i(2) j(2) by simp
  from pos_consistent_inj [OF assms(2) i(1) j(1) this] have "i = j" .
  with i(2) j(2) show ?thesis by simp
qed

lemma resident_pos:
  assumes "heap_wf h" and "pos_consistent h" and "n \<in> resident h"
  shows "pos_ok (node_cityID n)" and "0 \<le> pos h (node_cityID n)"
    and "nat (pos h (node_cityID n)) < heap_size h"
    and "nodes h ! nat (pos h (node_cityID n)) = n"
proof -
  from assms(1,3) obtain i where i: "i < heap_size h" "nodes h ! i = n" by (auto simp: resident_iff)
  with assms(2) have "pos_ok (node_cityID n)" "pos h (node_cityID n) = int i"
    by (auto simp: pos_consistent_def)
  with i show "pos_ok (node_cityID n)" and "0 \<le> pos h (node_cityID n)"
    and "nat (pos h (node_cityID n)) < heap_size h"
    and "nodes h ! nat (pos h (node_cityID n)) = n" by auto
qed

lemma insertHeap_correct:
  assumes inv: "heap_inv h" and room: "heap_size h < heap_capacity h" and ok: "pos_ok cid"
    and fresh: "cid \<notin> node_cityID ` resident h"
  shows "\<exists>h'. insertHeap h cid d f = Inr h' \<and> heap_inv h' \<and>
           heap_size h' = heap_size h + 1 \<and> heap_capacity h' = heap_capacity h \<and>
           resident h' = insert \<lparr>node_cityID = cid, node_distance = d, fScore = f\<rparr> (resident h) \<and>
           (\<forall>c. c \<notin> node_cityID ` resident h \<and> c \<noteq> cid \<longrightarrow> pos h' c = pos h c)"
proof -
  let ?n = "heap_size h"
  let ?new = "\<lparr>node_cityID = cid, node_distance = d, fScore = f\<rparr>"
  define h0 where "h0 = h\<lparr>heap_size := ?n + 1, nodes := (nodes h)[?n := ?new],
                           pos := (pos h)(cid := int ?n)\<rparr>"
  from inv have wf: "heap_wf h" and ord: "heap_ordered h" and pc: "pos_consistent h"
    by (simp_all add: heap_inv_def)
  from wf room have len: "?n < length (nodes h)" by (simp add: heap_wf_def)
  have eq: "insertHeap h cid d f = bubbleUp h0 ?n"
    using room ok by (simp add: insertHeap_def h0_def Let_def)
  have wf0: "heap_wf h0" using wf room by (simp add: heap_wf_def h0_def)
  have nth0: "nodes h0 ! i = (if i = ?n then ?new else nodes h ! i)" if "i \<le> ?n" for i
    using that len by (simp add: h0_def nth_list_update)
  have pc0: "pos_consistent h0"
    unfolding pos_consistent_def
  proof (intro allI impI)
    fix i assume "i < heap_size h0"
    then have i: "i \<le> ?n" by (simp add: h0_def)
    show "pos_ok (node_cityID (nodes h0 ! i)) \<and> pos h0 (node_cityID (nodes h0 ! i)) = int i"
    proof (cases "i = ?n")
      case True
      with nth0 [OF i] ok show ?thesis by (simp add: h0_def)
    next
      case False
      with i have lt: "i < ?n" by simp
      from resident_nth [OF wf lt] fresh have "node_cityID (nodes h ! i) \<noteq> cid" by auto
      with pc lt nth0 [OF i] False show ?thesis by (simp add: pos_consistent_def h0_def)
    qed
  qed
  have up0: "up_ok h0 ?n"
    unfolding up_ok_def
  proof (intro conjI allI impI)
    fix i assume "0 < i \<and> i < heap_size h0 \<and> i \<noteq> ?n"
    then have i: "0 < i" "i < ?n" by (simp_all add: h0_def)
    then have "(i - 1) div 2 < ?n" by simp
    with i ord nth0 [of i] nth0 [of "(i - 1) div 2"]
    show "fScore (nodes h0 ! ((i - 1) div 2)) \<le> fScore (nodes h0 ! i)"
      by (simp add: heap_ordered_def)
  next
    fix i assume a: "0 < i \<and> i < heap_size h0 \<and> (i - 1) div 2 = ?n \<and> 0 < ?n"
    then have "i < ?n + 1" by (simp add: h0_def)
    moreover from a have "?n < i" by auto
    ultimately show "fScore (nodes h0 ! ((?n - 1) div 2)) \<le> fScore (nodes h0 ! i)" by simp
  qed
  have res0: "resident h0 = insert ?new (resident h)"
  proof -
    have "take (?n + 1) ((nodes h)[?n := ?new]) = take ?n (nodes h) @ [?new]"
      using len by (simp add: take_Suc_conv_app_nth)
    then show ?thesis by (simp add: resident_def h0_def)
  qed
  have n0: "?n < heap_size h0" by (simp add: h0_def)
  from bubbleUp_correct [OF wf0 pc0 n0 up0] obtain h' where
    h': "bubbleUp h0 ?n = Inr h'" "heap_inv h'" "same_content h0 h'" by blast
  from h'(3) res0 have "heap_size h' = ?n + 1" "heap_capacity h' = heap_capacity h"
    "resident h' = insert ?new (resident h)"
    "\<forall>c. c \<notin> node_cityID ` resident h \<and> c \<noteq> cid \<longrightarrow> pos h' c = pos h c"
    by (auto simp: same_content_def h0_def)
  with eq h'(1,2) show ?thesis by auto
qed

lemma decreaseKey_absent:
  "pos_ok cid \<Longrightarrow> pos h cid = -1 \<Longrightarrow> decreaseKey h cid d f = Inr h"
  by (simp add: decreaseKey_def)

lemma decreaseKey_correct:
  assumes inv: "heap_inv h" and n: "n \<in> resident h" and le: "f \<le> fScore n"
  shows "\<exists>h'. decreaseKey h (node_cityID n) d f = Inr h' \<and> heap_inv h' \<and>
           heap_size h' = heap_size h \<and> heap_capacity h' = heap_capacity h \<and>
           resident h' = insert (n\<lparr>node_distance := d, fScore := f\<rparr>) (resident h - {n}) \<and>
           (\<forall>c. c \<notin> node_cityID ` resident h \<longrightarrow> pos h' c = pos h c)"
proof -
  let ?cid = "node_cityID n"
  let ?n' = "n\<lparr>node_distance := d, fScore := f\<rparr>"
  from inv have wf: "heap_wf h" and ord: "heap_ordered h" and pc: "pos_consistent h"
    by (simp_all add: heap_inv_def)
  define i where "i = nat (pos h ?cid)"
  from resident_pos [OF wf pc n] have ok: "pos_ok ?cid" and p0: "0 \<le> pos h ?cid"
    and i: "i < heap_size h" and ni: "nodes h ! i = n" by (simp_all add: i_def)
  from wf i have len: "i < length (nodes h)" and cap: "i < heap_capacity h" by (simp_all add: heap_wf_def)
  define h0 where "h0 = h\<lparr>nodes := (nodes h)[i := ?n']\<rparr>"
  from p0 have pi: "pos h ?cid = int i" by (simp add: i_def)
  have eq: "decreaseKey h ?cid d f = bubbleUp h0 i"
    using ok cap ni by (simp add: decreaseKey_def Let_def h0_def pi)
  have wf0: "heap_wf h0" using wf by (simp add: heap_wf_def h0_def)
  have nth0: "nodes h0 ! j = (if j = i then ?n' else nodes h ! j)" for j
    using len by (simp add: h0_def nth_list_update)
  have pc0: "pos_consistent h0"
    using pc ni by (auto simp: pos_consistent_def nth0) (auto simp: h0_def)
  have key_i: "fScore (nodes h0 ! i) \<le> fScore (nodes h ! i)" using le ni by (simp add: nth0)
  have up0: "up_ok h0 i"
    unfolding up_ok_def
  proof (intro conjI allI impI)
    fix j assume "0 < j \<and> j < heap_size h0 \<and> j \<noteq> i"
    then have j: "0 < j" "j < heap_size h" "j \<noteq> i" by (simp_all add: h0_def)
    with ord have "fScore (nodes h ! ((j - 1) div 2)) \<le> fScore (nodes h ! j)"
      by (simp add: heap_ordered_def)
    moreover have "f \<le> fScore (nodes h ! i)" using le ni by simp
    ultimately show "fScore (nodes h0 ! ((j - 1) div 2)) \<le> fScore (nodes h0 ! j)"
      using j by (cases "(j - 1) div 2 = i") (simp_all add: nth0)
  next
    fix j assume "0 < j \<and> j < heap_size h0 \<and> (j - 1) div 2 = i \<and> 0 < i"
    then have j: "0 < j" "j < heap_size h" "(j - 1) div 2 = i" "0 < i" by (simp_all add: h0_def)
    with ord have a: "fScore (nodes h ! i) \<le> fScore (nodes h ! j)"
      by (auto simp: heap_ordered_def)
    from ord j(4) i have b: "fScore (nodes h ! ((i - 1) div 2)) \<le> fScore (nodes h ! i)"
      by (simp add: heap_ordered_def)
    from j have "j \<noteq> i" "(i - 1) div 2 \<noteq> i" by auto
    with a b show "fScore (nodes h0 ! ((i - 1) div 2)) \<le> fScore (nodes h0 ! j)"
      by (simp add: nth0)
  qed
  have res0: "resident h0 = insert ?n' (resident h - {n})"
  proof -
    have sz0: "heap_size h0 = heap_size h" by (simp add: h0_def)
    have "m \<in> resident h0 \<longleftrightarrow> m = ?n' \<or> (m \<in> resident h \<and> m \<noteq> n)" for m
    proof -
      have "m \<in> resident h0 \<longleftrightarrow> (\<exists>j < heap_size h. nodes h0 ! j = m)"
        using resident_iff [OF wf0] sz0 by simp
      also have "\<dots> \<longleftrightarrow> m = ?n' \<or> (\<exists>j < heap_size h. j \<noteq> i \<and> nodes h ! j = m)"
        using i by (auto simp: nth0)
      also have "(\<exists>j < heap_size h. j \<noteq> i \<and> nodes h ! j = m) \<longleftrightarrow> (m \<in> resident h \<and> m \<noteq> n)"
      proof
        assume "\<exists>j < heap_size h. j \<noteq> i \<and> nodes h ! j = m"
        then obtain j where j: "j < heap_size h" "j \<noteq> i" "nodes h ! j = m" by blast
        from pos_consistent_inj [OF pc j(1) i] j ni have "m \<noteq> n" by auto
        with resident_nth [OF wf j(1)] j show "m \<in> resident h \<and> m \<noteq> n" by simp
      next
        assume "m \<in> resident h \<and> m \<noteq> n"
        then obtain j where "j < heap_size h" "nodes h ! j = m" "m \<noteq> n"
          using resident_iff [OF wf] by auto
        with ni show "\<exists>j < heap_size h. j \<noteq> i \<and> nodes h ! j = m" by auto
      qed
      finally show ?thesis .
    qed
    then show ?thesis by auto
  qed
  have i0: "i < heap_size h0" using i by (simp add: h0_def)
  from bubbleUp_correct [OF wf0 pc0 i0 up0] obtain h' where
    h': "bubbleUp h0 i = Inr h'" "heap_inv h'" "same_content h0 h'" by blast
  have ids0: "node_cityID ` resident h0 = node_cityID ` resident h"
    using res0 n by auto
  from h'(3) res0 ids0 have "heap_size h' = heap_size h" "heap_capacity h' = heap_capacity h"
    "resident h' = insert ?n' (resident h - {n})"
    "\<forall>c. c \<notin> node_cityID ` resident h \<longrightarrow> pos h' c = pos h c"
    by (auto simp: same_content_def h0_def)
  with eq h'(1,2) show ?thesis by auto
qed

lemma extractMin_correct:
  assumes inv: "heap_inv h" and ne: "0 < heap_size h"
  shows "\<exists>h'. extractMin h = Inr (nodes h ! 0, h') \<and> heap_inv h' \<and>
           heap_size h' = heap_size h - 1 \<and> heap_capacity h' = heap_capacity h \<and>
           nodes h ! 0 \<in> resident h \<and>
           (\<forall>m \<in> resident h. fScore (nodes h ! 0) \<le> fScore m) \<and>
           resident h' = resident h - {nodes h ! 0} \<and>
           (\<forall>c. c \<notin> node_cityID ` resident h \<longrightarrow> pos h' c = pos h c) \<and>
           pos h' (node_cityID (nodes h ! 0)) = (if heap_size h = 1 then 0 else -1)"
proof -
  let ?n = "heap_size h"
  let ?root = "nodes h ! 0" and ?last = "nodes h ! (?n - 1)"
  let ?rid = "node_cityID ?root" and ?lid = "node_cityID ?last"
  from inv have wf: "heap_wf h" and ord: "heap_ordered h" and pc: "pos_consistent h"
    by (simp_all add: heap_inv_def)
  from ne have l: "?n - 1 < ?n" by simp
  from wf ne have len: "0 < length (nodes h)" "?n \<le> length (nodes h)" by (simp_all add: heap_wf_def)
  define h0 where "h0 = h\<lparr>nodes := (nodes h)[0 := ?last],
                           pos := (pos h)(?rid := -1, ?lid := 0),
                           heap_size := ?n - 1\<rparr>"
  from pc ne l have ok: "pos_ok ?rid" "pos_ok ?lid" by (auto simp: pos_consistent_def)
  have eq: "extractMin h = (case minHeapify h0 0 of Inl e \<Rightarrow> Inl e | Inr h' \<Rightarrow> Inr (?root, h'))"
    using ne ok by (simp add: extractMin_def isHeapEmpty_def Let_def h0_def)
  have rootmem: "?root \<in> resident h" by (rule resident_nth [OF wf ne])
  have rootmin: "\<forall>m \<in> resident h. fScore ?root \<le> fScore m"
    using heap_ordered_root [OF ord] resident_iff [OF wf] by auto
  have wf0: "heap_wf h0" using wf by (auto simp: heap_wf_def h0_def)
  have sz0: "heap_size h0 = ?n - 1" by (simp add: h0_def)
  have nth0: "nodes h0 ! i = (if i = 0 then ?last else nodes h ! i)" for i
    using len by (simp add: h0_def nth_list_update)
  have pos0: "pos h0 = (pos h)(?rid := -1, ?lid := 0)" by (simp add: h0_def)
  have frame0: "\<forall>c. c \<notin> node_cityID ` resident h \<longrightarrow> pos h0 c = pos h c"
    using rootmem resident_nth [OF wf l] by (auto simp: pos0)
  have pc0: "pos_consistent h0"
    unfolding pos_consistent_def sz0
  proof (intro allI impI)
    fix i assume i: "i < ?n - 1"
    then have i': "i < ?n" by simp
    show "pos_ok (node_cityID (nodes h0 ! i)) \<and> pos h0 (node_cityID (nodes h0 ! i)) = int i"
    proof (cases "i = 0")
      case True
      with ok show ?thesis by (simp add: nth0 pos0)
    next
      case False
      from pos_consistent_inj [OF pc i' ne] False have "node_cityID (nodes h ! i) \<noteq> ?rid" by auto
      moreover from pos_consistent_inj [OF pc i' l] i have "node_cityID (nodes h ! i) \<noteq> ?lid" by auto
      ultimately show ?thesis using pc i' False by (simp add: nth0 pos0 pos_consistent_def)
    qed
  qed
  have res0: "resident h0 = resident h - {?root}"
  proof -
    have "m \<in> resident h0 \<longleftrightarrow> m \<in> resident h \<and> m \<noteq> ?root" for m
    proof
      assume "m \<in> resident h0"
      then obtain i where i: "i < ?n - 1" "nodes h0 ! i = m"
        using resident_iff [OF wf0] sz0 by auto
      show "m \<in> resident h \<and> m \<noteq> ?root"
      proof (cases "i = 0")
        case True
        with i have m: "m = ?last" and n2: "0 < ?n - 1" by (simp_all add: nth0)
        from pos_consistent_inj [OF pc l ne] n2 have "?last \<noteq> ?root" by auto
        with m resident_nth [OF wf l] show ?thesis by simp
      next
        case False
        with i have m: "m = nodes h ! i" and i': "i < ?n" by (simp_all add: nth0)
        from pos_consistent_inj [OF pc i' ne] False have "nodes h ! i \<noteq> ?root" by auto
        with m resident_nth [OF wf i'] show ?thesis by simp
      qed
    next
      assume a: "m \<in> resident h \<and> m \<noteq> ?root"
      then obtain i where i: "i < ?n" "nodes h ! i = m" using resident_iff [OF wf] by auto
      with a have i0: "i \<noteq> 0" by (cases "i = 0") auto
      show "m \<in> resident h0"
      proof (cases "i = ?n - 1")
        case True
        with i i0 have k: "0 < heap_size h0" "nodes h0 ! 0 = m" by (simp_all add: nth0 sz0)
        from resident_nth [OF wf0 k(1)] k(2) show ?thesis by simp
      next
        case False
        with i i0 have k: "i < heap_size h0" "nodes h0 ! i = m" by (simp_all add: nth0 sz0)
        from resident_nth [OF wf0 k(1)] k(2) show ?thesis by simp
      qed
    qed
    then show ?thesis by auto
  qed
  have rid0: "pos h0 ?rid = (if ?n = 1 then 0 else -1)"
  proof (cases "?n = 1")
    case True
    then show ?thesis by (simp add: pos0)
  next
    case False
    with ne have "0 \<noteq> ?n - 1" by simp
    with pos_consistent_inj [OF pc ne l] have "?rid \<noteq> ?lid" by auto
    with False show ?thesis by (simp add: pos0)
  qed
  have "\<exists>h'. minHeapify h0 0 = Inr h' \<and> heap_inv h' \<and> same_content h0 h'"
  proof (cases "?n = 1")
    case True
    then have "smallestOf h0 0 = 0" by (simp add: smallestOf_def h0_def)
    then have "minHeapify h0 0 = Inr h0" by (simp add: minHeapify.simps [of h0 0])
    moreover have "heap_inv h0"
      using wf0 True by (simp add: heap_inv_def heap_ordered_def pos_consistent_def sz0)
    ultimately show ?thesis using same_content_refl by blast
  next
    case False
    with ne have k: "0 < heap_size h0" by (simp add: sz0)
    have "down_ok h0 0"
      unfolding down_ok_def sz0
    proof (intro conjI allI impI)
      fix i assume a: "0 < i \<and> i < ?n - 1 \<and> (i - 1) div 2 \<noteq> 0"
      then have "0 < i \<and> i < ?n" by auto
      with ord have "fScore (nodes h ! ((i - 1) div 2)) \<le> fScore (nodes h ! i)"
        unfolding heap_ordered_def by blast
      with a show "fScore (nodes h0 ! ((i - 1) div 2)) \<le> fScore (nodes h0 ! i)"
        by (simp add: nth0)
    qed simp
    from minHeapify_correct [OF wf0 pc0 k this] show ?thesis .
  qed
  then obtain h' where h': "minHeapify h0 0 = Inr h'" "heap_inv h'" "same_content h0 h'" by blast
  have ridnot: "?rid \<notin> node_cityID ` resident h0"
  proof
    assume "?rid \<in> node_cityID ` resident h0"
    then obtain m where "m \<in> resident h0" "node_cityID m = ?rid" by force
    with res0 have m: "m \<in> resident h" "m \<noteq> ?root" "node_cityID m = ?rid" by simp_all
    from resident_distinct [OF wf pc m(1) rootmem m(3)] m(2) show False by simp
  qed
  from h'(3) have "heap_size h' = ?n - 1" "heap_capacity h' = heap_capacity h"
    "resident h' = resident h - {?root}"
    by (simp_all add: same_content_def sz0 res0) (simp add: h0_def)
  moreover have "\<forall>c. c \<notin> node_cityID ` resident h \<longrightarrow> pos h' c = pos h c"
  proof (intro allI impI)
    fix c assume c: "c \<notin> node_cityID ` resident h"
    then have "c \<notin> node_cityID ` resident h0" using res0 by auto
    with h'(3) have "pos h' c = pos h0 c" by (simp add: same_content_def)
    with frame0 c show "pos h' c = pos h c" by simp
  qed
  moreover have "pos h' ?rid = (if ?n = 1 then 0 else -1)"
    using h'(3) ridnot rid0 by (simp add: same_content_def)
  ultimately show ?thesis using eq h'(1,2) rootmem rootmin by simp
qed

section \<open>Correctness of Dijkstra\<close>

text \<open>
  \<open>walk g a b w\<close>: the graph has a directed path from city \<open>a\<close> to city \<open>b\<close> whose
  edge weights sum to \<open>w\<close>.  The preconditions of the shortest-path queries beyond the
  data-model invariants: every identifier indexes the position array, and every weight is
  small enough that a finite distance plus the weight fits an \<open>int\<close>.
\<close>

inductive walk :: "graph \<Rightarrow> int \<Rightarrow> int \<Rightarrow> int \<Rightarrow> bool" for g :: graph and a :: int where
  walk_start: "a \<in> cityIDs g \<Longrightarrow> walk g a a 0"
| walk_step: "walk g a b w \<Longrightarrow> c \<in> set (cities g) \<Longrightarrow> cityID c = b \<Longrightarrow> e \<in> set (adjList c) \<Longrightarrow>
     walk g a (destCityID e) (w + distance e)"

definition ids_in_range :: "graph \<Rightarrow> bool" where
  "ids_in_range g \<longleftrightarrow> (\<forall>c \<in> set (cities g). pos_ok (cityID c))"

definition weights_fit :: "graph \<Rightarrow> bool" where
  "weights_fit g \<longleftrightarrow>
     (\<forall>c \<in> set (cities g). \<forall>e \<in> set (adjList c). distance e + INF_DIST < 2147483648)"

definition slotOf :: "graph \<Rightarrow> int \<Rightarrow> nat" where
  "slotOf g cid = nat (findCityIndex g cid)"

definition idAt :: "graph \<Rightarrow> nat \<Rightarrow> int" where
  "idAt g v = cityID (cities g ! v)"

definition settled :: "graph \<Rightarrow> minheap \<Rightarrow> nat \<Rightarrow> bool" where
  "settled g h v \<longleftrightarrow> v < numCities g \<and> idAt g v \<notin> node_cityID ` resident h"

definition keys_match :: "graph \<Rightarrow> minheap \<Rightarrow> int list \<Rightarrow> bool" where
  "keys_match g h ks \<longleftrightarrow>
     (\<forall>m \<in> resident h. \<exists>v < numCities g. node_cityID m = idAt g v \<and> fScore m = ks ! v)"

definition relaxed :: "graph \<Rightarrow> int list \<Rightarrow> nat \<Rightarrow> edge \<Rightarrow> bool" where
  "relaxed g ds x e \<longleftrightarrow> ds ! slotOf g (destCityID e) \<le> ds ! x + distance e"

definition dinv :: "graph \<Rightarrow> nat \<Rightarrow> nat \<Rightarrow> edge list \<Rightarrow> dstate \<Rightarrow> bool" where
  "dinv g src u es s \<longleftrightarrow>
     length (dist_arr s) = numCities g \<and> length (parent_arr s) = numCities g \<and>
     heap_inv (dheap s) \<and> keys_match g (dheap s) (dist_arr s) \<and>
     src < numCities g \<and> dist_arr s ! src = 0 \<and>
     (\<forall>v < numCities g. 0 \<le> dist_arr s ! v \<and> dist_arr s ! v \<le> INF_DIST) \<and>
     (\<forall>v < numCities g. dist_arr s ! v < INF_DIST \<longrightarrow>
          walk g (idAt g src) (idAt g v) (dist_arr s ! v)) \<and>
     (\<forall>x. settled g (dheap s) x \<longrightarrow> dist_arr s ! x < INF_DIST \<longrightarrow>
          (\<forall>e \<in> set (adjList (cities g ! x)).
              (x = u \<and> e \<in> set es) \<or> relaxed g (dist_arr s) x e)) \<and>
     (\<forall>x y. settled g (dheap s) x \<and> y < numCities g \<and> \<not> settled g (dheap s) y \<longrightarrow>
          dist_arr s ! x \<le> dist_arr s ! y) \<and>
     (\<forall>v < numCities g. parent_arr s ! v = -1 \<or>
          (0 \<le> parent_arr s ! v \<and> parent_arr s ! v < int (numCities g) \<and>
           dist_arr s ! nat (parent_arr s ! v) < dist_arr s ! v))"

definition dmid :: "graph \<Rightarrow> nat \<Rightarrow> dstate \<Rightarrow> bool" where
  "dmid g u s \<longleftrightarrow>
     settled g (dheap s) u \<and>
     (\<forall>x. settled g (dheap s) x \<longrightarrow> dist_arr s ! x \<le> dist_arr s ! u) \<and>
     (\<forall>y < numCities g. \<not> settled g (dheap s) y \<longrightarrow> dist_arr s ! u \<le> dist_arr s ! y)"

lemma int32_id: "- 2147483648 \<le> v \<Longrightarrow> v < 2147483648 \<Longrightarrow> int32 v = v"
  by (simp add: int32_def)

lemma idAt_inj:
  "graph_inv g \<Longrightarrow> v < numCities g \<Longrightarrow> v' < numCities g \<Longrightarrow> idAt g v = idAt g v' \<Longrightarrow> v = v'"
  unfolding graph_inv_def numCities_def idAt_def
  by (metis length_map nth_eq_iff_index_eq nth_map)

lemma slotOf_idAt: "graph_inv g \<Longrightarrow> v < numCities g \<Longrightarrow> findCityIndex g (idAt g v) = int v"
  unfolding graph_inv_def numCities_def idAt_def by (simp add: findCityIndex_nth)

lemma slotOf_member:
  assumes "c \<in> cityIDs g"
  shows "findCityIndex g c \<noteq> -1" and "0 \<le> findCityIndex g c"
    and "slotOf g c < numCities g" and "idAt g (slotOf g c) = c"
  using findCityIndex_some [of c g] assms
  by (auto simp: cityIDs_def slotOf_def numCities_def idAt_def)

lemma edge_target:
  assumes "graph_inv g" and "u < numCities g" and "e \<in> set (adjList (cities g ! u))"
  shows "destCityID e \<in> cityIDs g" and "0 < distance e"
  using assms unfolding graph_inv_def numCities_def by (auto dest: nth_mem)

lemma edge_fit:
  assumes "weights_fit g" and "u < numCities g" and "e \<in> set (adjList (cities g ! u))"
  shows "distance e + INF_DIST < 2147483648"
  using assms unfolding weights_fit_def numCities_def by (auto dest: nth_mem)

lemma unsettled_node:
  assumes "graph_inv g" and "heap_inv h" and "keys_match g h ks"
    and "y < numCities g" and "\<not> settled g h y"
  obtains m where "m \<in> resident h" and "node_cityID m = idAt g y" and "fScore m = ks ! y"
proof -
  from assms(4,5) obtain m where m: "m \<in> resident h" "node_cityID m = idAt g y"
    by (auto simp: settled_def)
  with assms(3) obtain v where v: "v < numCities g" "node_cityID m = idAt g v" "fScore m = ks ! v"
    by (auto simp: keys_match_def)
  from idAt_inj [OF assms(1) v(1) assms(4)] v(2) m(2) have "v = y" by simp
  with m v(3) that show ?thesis by simp
qed

lemma relax_skip:
  assumes inv: "dinv g src u (e # es) s"
    and skip: "dist_arr s ! u = INF_DIST \<or> relaxed g (dist_arr s) u e"
  shows "dinv g src u es s"
proof -
  have "(x = u \<and> e' \<in> set es) \<or> relaxed g (dist_arr s) x e'"
    if "settled g (dheap s) x" and "dist_arr s ! x < INF_DIST"
      and "e' \<in> set (adjList (cities g ! x))" for x e'
  proof -
    from inv that have "(x = u \<and> e' \<in> set (e # es)) \<or> relaxed g (dist_arr s) x e'"
      unfolding dinv_def by blast
    with skip that(2) show ?thesis by auto
  qed
  with inv show ?thesis unfolding dinv_def by blast
qed

lemma relax_update:
  assumes ginv: "graph_inv g" and fit: "weights_fit g"
    and inv: "dinv g src u (e # es) s" and mid: "dmid g u s"
    and u: "u < numCities g" and e: "e \<in> set (adjList (cities g ! u))"
    and finite: "dist_arr s ! u \<noteq> INF_DIST"
    and less: "dist_arr s ! u + distance e < dist_arr s ! slotOf g (destCityID e)"
  shows "\<exists>h'. decreaseKey (dheap s) (destCityID e)
                 (dist_arr s ! u + distance e) (dist_arr s ! u + distance e) = Inr h' \<and>
               heap_size h' = heap_size (dheap s) \<and>
               dinv g src u es
                 (s\<lparr>dist_arr := (dist_arr s)[slotOf g (destCityID e) := dist_arr s ! u + distance e],
                    parent_arr := (parent_arr s)[slotOf g (destCityID e) := int u],
                    dheap := h'\<rparr>) \<and>
               dmid g u
                 (s\<lparr>dist_arr := (dist_arr s)[slotOf g (destCityID e) := dist_arr s ! u + distance e],
                    parent_arr := (parent_arr s)[slotOf g (destCityID e) := int u],
                    dheap := h'\<rparr>)"
proof -
  let ?n = "numCities g"
  let ?ds = "dist_arr s" and ?ps = "parent_arr s" and ?h = "dheap s"
  define v where "v = slotOf g (destCityID e)"
  define t where "t = ?ds ! u + distance e"
  note tgt = edge_target [OF ginv u e]
  note sm = slotOf_member [OF tgt(1)]
  have vn: "v < ?n" and idv: "idAt g v = destCityID e" using sm by (simp_all add: v_def)
  from inv have len: "length ?ds = ?n" "length ?ps = ?n"
    and hinv: "heap_inv ?h" and km: "keys_match g ?h ?ds"
    and src: "src < ?n" "?ds ! src = 0"
    and rng: "\<And>x. x < ?n \<Longrightarrow> 0 \<le> ?ds ! x \<and> ?ds ! x \<le> INF_DIST"
    and snd: "\<And>x. x < ?n \<Longrightarrow> ?ds ! x < INF_DIST \<Longrightarrow> walk g (idAt g src) (idAt g x) (?ds ! x)"
    and rel: "\<And>x e'. settled g ?h x \<Longrightarrow> ?ds ! x < INF_DIST \<Longrightarrow>
                e' \<in> set (adjList (cities g ! x)) \<Longrightarrow>
                (x = u \<and> e' \<in> set (e # es)) \<or> relaxed g ?ds x e'"
    and mono: "\<And>x y. settled g ?h x \<Longrightarrow> y < ?n \<Longrightarrow> \<not> settled g ?h y \<Longrightarrow> ?ds ! x \<le> ?ds ! y"
    and par: "\<And>x. x < ?n \<Longrightarrow> ?ps ! x = -1 \<or>
                (0 \<le> ?ps ! x \<and> ?ps ! x < int ?n \<and> ?ds ! nat (?ps ! x) < ?ds ! x)"
    unfolding dinv_def by blast+
  from mid have su: "settled g ?h u"
    and below: "\<And>x. settled g ?h x \<Longrightarrow> ?ds ! x \<le> ?ds ! u"
    and above: "\<And>y. y < ?n \<Longrightarrow> \<not> settled g ?h y \<Longrightarrow> ?ds ! u \<le> ?ds ! y"
    unfolding dmid_def by blast+
  from rng [OF u] finite have du: "0 \<le> ?ds ! u" "?ds ! u < INF_DIST" by auto
  from tgt(2) du have tu: "?ds ! u < t" and t0: "0 < t" by (simp_all add: t_def)
  from less have tv: "t < ?ds ! v" by (simp add: t_def v_def)
  have nv: "\<not> settled g ?h v"
  proof
    assume "settled g ?h v"
    from below [OF this] tu tv show False by simp
  qed
  from unsettled_node [OF ginv hinv km vn nv] obtain m where
    m: "m \<in> resident ?h" "node_cityID m = idAt g v" "fScore m = ?ds ! v" by blast
  define m' where "m' = m\<lparr>node_distance := t, fScore := t\<rparr>"
  from tv m(3) have "t \<le> fScore m" by simp
  from decreaseKey_correct [OF hinv m(1) this, of t] m(2) idv obtain h' where
    h': "decreaseKey ?h (destCityID e) t t = Inr h'" "heap_inv h'"
      "heap_size h' = heap_size ?h" "resident h' = insert m' (resident ?h - {m})"
    by (auto simp: m'_def)
  define ds' where "ds' = ?ds[v := t]"
  define s' where "s' = s\<lparr>dist_arr := ds', parent_arr := ?ps[v := int u], dheap := h'\<rparr>"
  have f': "dist_arr s' = ds'" "parent_arr s' = ?ps[v := int u]" "dheap s' = h'"
    by (simp_all add: s'_def)
  have dsv: "ds' ! v = t" using vn len by (simp add: ds'_def)
  have dso: "ds' ! x = ?ds ! x" if "x \<noteq> v" for x using that by (simp add: ds'_def)
  have dle: "ds' ! x \<le> ?ds ! x" if "x < ?n" for x
    using tv dsv dso [of x] by (cases "x = v") auto
  from hinv have wf: "heap_wf ?h" and pc: "pos_consistent ?h" by (simp_all add: heap_inv_def)
  have ids: "node_cityID ` resident h' = node_cityID ` resident ?h"
    using h'(4) m(1) by (auto simp: m'_def)
  then have set_eq: "settled g h' x = settled g ?h x" for x by (simp add: settled_def)
  have km': "keys_match g h' ds'"
    unfolding keys_match_def
  proof
    fix k assume "k \<in> resident h'"
    with h'(4) consider "k = m'" | "k \<in> resident ?h" "k \<noteq> m" by auto
    then show "\<exists>x < ?n. node_cityID k = idAt g x \<and> fScore k = ds' ! x"
    proof cases
      case 1
      with vn m(2) dsv show ?thesis by (auto simp: m'_def)
    next
      case 2
      with km obtain x where x: "x < ?n" "node_cityID k = idAt g x" "fScore k = ?ds ! x"
        by (auto simp: keys_match_def)
      have "x \<noteq> v"
      proof
        assume "x = v"
        with x(2) m(2) have "node_cityID k = node_cityID m" by simp
        from resident_distinct [OF wf pc 2(1) m(1) this] 2(2) show False by simp
      qed
      with x dso show ?thesis by auto
    qed
  qed
  have vsrc: "v \<noteq> src" using tv t0 src(2) by auto
  have uv: "u \<noteq> v" using su nv by auto
  have inv': "dinv g src u es s'"
    unfolding dinv_def f'
  proof (intro conjI allI impI ballI)
    show "length ds' = ?n" using len by (simp add: ds'_def)
    show "length (?ps[v := int u]) = ?n" using len by simp
    show "heap_inv h'" by (rule h'(2))
    show "keys_match g h' ds'" by (rule km')
    show "src < ?n" by (rule src(1))
    show "ds' ! src = 0" using vsrc src(2) dso by simp
  next
    fix x assume x: "x < ?n"
    show "0 \<le> ds' ! x" using rng [OF x] t0 dsv dso [of x] by (cases "x = v") auto
    show "ds' ! x \<le> INF_DIST" using rng [OF x] dle [OF x] by simp
  next
    fix x assume x: "x < ?n" and fin: "ds' ! x < INF_DIST"
    show "walk g (idAt g src) (idAt g x) (ds' ! x)"
    proof (cases "x = v")
      case True
      from u have cu: "cities g ! u \<in> set (cities g)" by (simp add: numCities_def)
      from walk_step [OF snd [OF u du(2)] cu _ e] have "walk g (idAt g src) (destCityID e) t"
        by (simp add: idAt_def t_def)
      with True idv dsv show ?thesis by simp
    next
      case False
      with snd [OF x] fin dso show ?thesis by simp
    qed
  next
    fix x e' assume sx: "settled g h' x" and fin: "ds' ! x < INF_DIST"
      and e': "e' \<in> set (adjList (cities g ! x))"
    from sx have sx0: "settled g ?h x" by (simp add: set_eq)
    with nv have xv: "x \<noteq> v" by auto
    with fin dso have fin0: "?ds ! x < INF_DIST" by simp
    from sx0 have xn: "x < ?n" by (simp add: settled_def)
    have tn: "slotOf g (destCityID e') < ?n"
      using slotOf_member(3) [OF edge_target(1) [OF ginv xn e']] .
    from rel [OF sx0 fin0 e'] consider "x = u" "e' = e" | "x = u" "e' \<in> set es"
      | "relaxed g ?ds x e'" by auto
    then show "(x = u \<and> e' \<in> set es) \<or> relaxed g ds' x e'"
    proof cases
      case 1
      then show ?thesis using dsv dso [OF uv] by (simp add: relaxed_def v_def t_def)
    next
      case 2
      then show ?thesis by simp
    next
      case 3
      with dle [OF tn] dso [OF xv] show ?thesis by (simp add: relaxed_def)
    qed
  next
    fix x y assume a: "settled g h' x \<and> y < ?n \<and> \<not> settled g h' y"
    then have sx: "settled g ?h x" and y: "y < ?n" and ny: "\<not> settled g ?h y"
      by (simp_all add: set_eq)
    from sx nv have xv: "x \<noteq> v" by auto
    show "ds' ! x \<le> ds' ! y"
    proof (cases "y = v")
      case True
      with below [OF sx] tu dsv dso [OF xv] show ?thesis by simp
    next
      case False
      with mono [OF sx y ny] dso xv show ?thesis by simp
    qed
  next
    fix x assume x: "x < ?n"
    show "?ps[v := int u] ! x = -1 \<or>
          (0 \<le> ?ps[v := int u] ! x \<and> ?ps[v := int u] ! x < int ?n \<and>
           ds' ! nat (?ps[v := int u] ! x) < ds' ! x)"
    proof (cases "x = v")
      case True
      with vn len u tu dsv dso [OF uv] show ?thesis by simp
    next
      case False
      then have px: "?ps[v := int u] ! x = ?ps ! x" by simp
      from par [OF x] show ?thesis
      proof
        assume "?ps ! x = -1"
        with px show ?thesis by simp
      next
        assume p: "0 \<le> ?ps ! x \<and> ?ps ! x < int ?n \<and> ?ds ! nat (?ps ! x) < ?ds ! x"
        then have "nat (?ps ! x) < ?n" by linarith
        from dle [OF this] p have "ds' ! nat (?ps ! x) < ?ds ! x" by simp
        with p px dso [OF False] show ?thesis by simp
      qed
    qed
  qed
  have mid': "dmid g u s'"
    unfolding dmid_def f'
  proof (intro conjI allI impI)
    show "settled g h' u" using su by (simp add: set_eq)
  next
    fix x assume "settled g h' x"
    then have sx: "settled g ?h x" by (simp add: set_eq)
    with nv have "x \<noteq> v" by auto
    with below [OF sx] dso uv show "ds' ! x \<le> ds' ! u" by simp
  next
    fix y assume y: "y < ?n" and "\<not> settled g h' y"
    then have ny: "\<not> settled g ?h y" by (simp add: set_eq)
    show "ds' ! u \<le> ds' ! y"
    proof (cases "y = v")
      case True
      with tu dsv dso [OF uv] show ?thesis by simp
    next
      case False
      with above [OF y ny] dso uv show ?thesis by simp
    qed
  qed
  from h'(1,3) inv' mid' show ?thesis
    unfolding s'_def ds'_def v_def t_def by blast
qed

lemma dinv_nil: "dinv g src u [] s \<Longrightarrow> dinv g src u' [] s"
  unfolding dinv_def by simp

lemma relaxEdges_correct:
  assumes ginv: "graph_inv g" and fit: "weights_fit g" and u: "u < numCities g"
  shows "set es \<subseteq> set (adjList (cities g ! u)) \<Longrightarrow> dinv g src u es s \<Longrightarrow> dmid g u s \<Longrightarrow>
           \<exists>s'. relaxEdges g u es s = Inr s' \<and> dinv g src u [] s' \<and> dmid g u s'"
proof (induction es arbitrary: s)
  case Nil
  then show ?case by simp
next
  case (Cons e es)
  from Cons.prems(1) have e: "e \<in> set (adjList (cities g ! u))"
    and sub: "set es \<subseteq> set (adjList (cities g ! u))" by auto
  note inv = Cons.prems(2) and mid = Cons.prems(3)
  note tgt = edge_target [OF ginv u e]
  note sm = slotOf_member [OF tgt(1)]
  let ?v = "findCityIndex g (destCityID e)"
  have v: "?v \<noteq> -1" "nat ?v = slotOf g (destCityID e)" using sm by (simp_all add: slotOf_def)
  from inv u have du: "0 \<le> dist_arr s ! u" "dist_arr s ! u \<le> INF_DIST"
    unfolding dinv_def by auto
  from edge_fit [OF fit u e] tgt(2) du
  have t: "int32 (dist_arr s ! u + distance e) = dist_arr s ! u + distance e"
    by (intro int32_id) auto
  show ?case
  proof (cases "dist_arr s ! u = INF_DIST")
    case True
    from relax_skip [OF inv] True have "dinv g src u es s" by simp
    from Cons.IH [OF sub this mid] True show ?thesis by simp
  next
    case False
    show ?thesis
    proof (cases "dist_arr s ! u + distance e < dist_arr s ! slotOf g (destCityID e)")
      case True
      from relax_update [OF ginv fit inv mid u e False True] obtain h' where
        h': "decreaseKey (dheap s) (destCityID e)
               (dist_arr s ! u + distance e) (dist_arr s ! u + distance e) = Inr h'"
        and inv': "dinv g src u es
                 (s\<lparr>dist_arr := (dist_arr s)[slotOf g (destCityID e) := dist_arr s ! u + distance e],
                    parent_arr := (parent_arr s)[slotOf g (destCityID e) := int u],
                    dheap := h'\<rparr>)"
        and mid': "dmid g u
                 (s\<lparr>dist_arr := (dist_arr s)[slotOf g (destCityID e) := dist_arr s ! u + distance e],
                    parent_arr := (parent_arr s)[slotOf g (destCityID e) := int u],
                    dheap := h'\<rparr>)"
        by blast
      from Cons.IH [OF sub inv' mid'] False True v t h' show ?thesis
        by (simp add: Let_def)
    next
      case nl: False
      then have "relaxed g (dist_arr s) u e" by (simp add: relaxed_def)
      with relax_skip [OF inv] have "dinv g src u es s" by simp
      from Cons.IH [OF sub this mid] False nl v t show ?thesis by (simp add: Let_def)
    qed
  qed
qed

lemma city_at_slot:
  assumes "graph_inv g" and "c \<in> set (cities g)"
  shows "slotOf g (cityID c) < numCities g" and "cities g ! slotOf g (cityID c) = c"
proof -
  from assms(2) obtain j where j: "j < numCities g" "cities g ! j = c"
    by (auto simp: in_set_conv_nth numCities_def)
  from slotOf_idAt [OF assms(1) j(1)] j(2) have "slotOf g (cityID c) = j"
    by (simp add: slotOf_def idAt_def)
  with j show "slotOf g (cityID c) < numCities g" and "cities g ! slotOf g (cityID c) = c"
    by simp_all
qed

lemma walk_lower_bound:
  assumes ginv: "graph_inv g" and src: "src < numCities g" "ds ! src = 0"
    and rel: "\<And>x e. x \<in> S \<Longrightarrow> ds ! x < INF_DIST \<Longrightarrow> e \<in> set (adjList (cities g ! x)) \<Longrightarrow>
                relaxed g ds x e"
    and bound: "\<And>y. y < numCities g \<Longrightarrow> y \<notin> S \<Longrightarrow> k \<le> ds ! y"
    and k: "k \<le> INF_DIST"
    and w: "walk g (idAt g src) b w"
  shows "ds ! slotOf g b \<le> w \<or> k \<le> w"
  using w
proof (induction rule: walk.induct)
  case walk_start
  from slotOf_idAt [OF ginv src(1)] have "slotOf g (idAt g src) = src" by (simp add: slotOf_def)
  with src(2) show ?case by simp
next
  case (walk_step b w c e)
  let ?x = "slotOf g b"
  from city_at_slot [OF ginv walk_step.hyps(2)] walk_step.hyps(3)
  have x: "?x < numCities g" "cities g ! ?x = c" by auto
  with walk_step.hyps(4) have e: "e \<in> set (adjList (cities g ! ?x))" by simp
  from edge_target [OF ginv x(1) e] have pos: "0 < distance e" by simp
  from walk_step.IH show ?case
  proof
    assume "k \<le> w"
    with pos show ?thesis by simp
  next
    assume le: "ds ! ?x \<le> w"
    show ?thesis
    proof (cases "k \<le> w")
      case True
      with pos show ?thesis by simp
    next
      case False
      with le have lt: "ds ! ?x < k" by simp
      with bound [OF x(1)] have "?x \<in> S" by force
      moreover from lt k have "ds ! ?x < INF_DIST" by simp
      ultimately have "relaxed g ds ?x e" using e by (rule rel)
      with le show ?thesis by (simp add: relaxed_def)
    qed
  qed
qed

definition dpost :: "graph \<Rightarrow> nat \<Rightarrow> nat \<Rightarrow> int list \<Rightarrow> int list \<Rightarrow> bool" where
  "dpost g src dest ds ps \<longleftrightarrow>
     length ds = numCities g \<and> length ps = numCities g \<and>
     (\<forall>v < numCities g. 0 \<le> ds ! v \<and> ds ! v \<le> INF_DIST) \<and>
     (\<forall>v < numCities g. ds ! v < INF_DIST \<longrightarrow> walk g (idAt g src) (idAt g v) (ds ! v)) \<and>
     (\<forall>v < numCities g. ps ! v = -1 \<or>
          (0 \<le> ps ! v \<and> ps ! v < int (numCities g) \<and> ds ! nat (ps ! v) < ds ! v)) \<and>
     (\<forall>w. walk g (idAt g src) (idAt g dest) w \<longrightarrow> ds ! dest \<le> w)"

lemma dinv_dpost:
  assumes ginv: "graph_inv g" and dest: "dest < numCities g"
    and inv: "dinv g src u [] s"
    and bound: "\<And>y. y < numCities g \<Longrightarrow> \<not> settled g (dheap s) y \<Longrightarrow> k \<le> dist_arr s ! y"
    and k: "k \<le> INF_DIST" "dist_arr s ! dest \<le> k"
  shows "dpost g src dest (dist_arr s) (parent_arr s)"
proof -
  let ?ds = "dist_arr s"
  from inv have src: "src < numCities g" "?ds ! src = 0"
    and rel: "\<And>x e. x \<in> {x. settled g (dheap s) x} \<Longrightarrow> ?ds ! x < INF_DIST \<Longrightarrow>
                e \<in> set (adjList (cities g ! x)) \<Longrightarrow> relaxed g ?ds x e"
    unfolding dinv_def by auto
  have "?ds ! dest \<le> w" if "walk g (idAt g src) (idAt g dest) w" for w
  proof -
    have b: "k \<le> ?ds ! y" if "y < numCities g" "y \<notin> {x. settled g (dheap s) x}" for y
      using bound that by simp
    from walk_lower_bound [OF ginv src rel b k(1) \<open>walk g (idAt g src) (idAt g dest) w\<close>]
    have "?ds ! slotOf g (idAt g dest) \<le> w \<or> k \<le> w" by blast
    moreover from slotOf_idAt [OF ginv dest] have "slotOf g (idAt g dest) = dest"
      by (simp add: slotOf_def)
    ultimately show ?thesis using k(2) by auto
  qed
  with inv show ?thesis unfolding dpost_def dinv_def by blast
qed

lemma dijkstraLoop_correct:
  assumes ginv: "graph_inv g" and fit: "weights_fit g" and dest: "dest < numCities g"
  shows "dinv g src u0 [] s \<Longrightarrow>
           \<exists>s'. dijkstraLoop g (int dest) s = Inr s' \<and>
                dpost g src dest (dist_arr s') (parent_arr s')"
proof (induction "heap_size (dheap s)" arbitrary: s u0 rule: less_induct)
  case less
  note inv = less.prems
  let ?n = "numCities g"
  let ?ds = "dist_arr s" and ?h = "dheap s"
  from inv have hinv: "heap_inv ?h" and km: "keys_match g ?h ?ds"
    and rng: "\<And>x. x < ?n \<Longrightarrow> 0 \<le> ?ds ! x \<and> ?ds ! x \<le> INF_DIST"
    and rel: "\<And>x e'. settled g ?h x \<Longrightarrow> ?ds ! x < INF_DIST \<Longrightarrow>
                e' \<in> set (adjList (cities g ! x)) \<Longrightarrow> relaxed g ?ds x e'"
    and mono: "\<And>x y. settled g ?h x \<Longrightarrow> y < ?n \<Longrightarrow> \<not> settled g ?h y \<Longrightarrow> ?ds ! x \<le> ?ds ! y"
    unfolding dinv_def by auto
  from hinv have wf: "heap_wf ?h" and pc: "pos_consistent ?h" by (simp_all add: heap_inv_def)
  show ?case
  proof (cases "heap_size ?h = 0")
    case True
    then have "resident ?h = {}" by (simp add: resident_def)
    then have all: "settled g ?h y" if "y < ?n" for y using that by (simp add: settled_def)
    from rng [OF dest] have "?ds ! dest \<le> INF_DIST" by simp
    from dinv_dpost [OF ginv dest inv _ _ this] all
    have "dpost g src dest ?ds (parent_arr s)" by auto
    moreover from True have "dijkstraLoop g (int dest) s = Inr s"
      by (simp add: dijkstraLoop.simps [of g "int dest" s] isHeapEmpty_def)
    ultimately show ?thesis by simp
  next
    case False
    then have ne: "0 < heap_size ?h" by simp
    let ?m = "nodes ?h ! 0"
    from extractMin_correct [OF hinv ne] obtain h' where
      ex: "extractMin ?h = Inr (?m, h')" and hinv': "heap_inv h'"
      and sz': "heap_size h' = heap_size ?h - 1"
      and mres: "?m \<in> resident ?h"
      and mmin: "\<And>k. k \<in> resident ?h \<Longrightarrow> fScore ?m \<le> fScore k"
      and res': "resident h' = resident ?h - {?m}"
      by blast
    from km mres obtain x where x: "x < ?n" "node_cityID ?m = idAt g x" "fScore ?m = ?ds ! x"
      by (auto simp: keys_match_def)
    from slotOf_idAt [OF ginv x(1)] x(2) have fx: "findCityIndex g (node_cityID ?m) = int x"
      by simp
    have "idAt g x \<in> node_cityID ` resident ?h" using mres x(2) by (metis imageI)
    then have nsx: "\<not> settled g ?h x" by (simp add: settled_def)
    have minx: "?ds ! x \<le> ?ds ! y" if "y < ?n" "\<not> settled g ?h y" for y
    proof -
      from unsettled_node [OF ginv hinv km that] obtain k where
        "k \<in> resident ?h" "fScore k = ?ds ! y" by blast
      with mmin [of k] x(3) show ?thesis by simp
    qed
    show ?thesis
    proof (cases "x = dest")
      case True
      from rng [OF dest] have "?ds ! dest \<le> INF_DIST" by simp
      from dinv_dpost [OF ginv dest inv _ this] minx True
      have "dpost g src dest ?ds (parent_arr s)" by auto
      moreover from ne ex fx True have "dijkstraLoop g (int dest) s = Inr (s\<lparr>dheap := h'\<rparr>)"
        by (simp add: dijkstraLoop.simps [of g "int dest" s] isHeapEmpty_def)
      ultimately show ?thesis by simp
    next
      case xd: False
      define s0 where "s0 = s\<lparr>dheap := h'\<rparr>"
      have f0: "dist_arr s0 = ?ds" "parent_arr s0 = parent_arr s" "dheap s0 = h'"
        by (simp_all add: s0_def)
      have ids': "node_cityID ` resident h' = node_cityID ` resident ?h - {node_cityID ?m}"
      proof -
        have "node_cityID k \<noteq> node_cityID ?m" if "k \<in> resident ?h" "k \<noteq> ?m" for k
          using resident_distinct [OF wf pc that(1) mres] that(2) by auto
        with res' mres show ?thesis by auto
      qed
      have set': "settled g h' y \<longleftrightarrow> settled g ?h y \<or> y = x" if "y < ?n" for y
      proof -
        have "idAt g y = idAt g x \<longleftrightarrow> y = x" using idAt_inj [OF ginv that x(1)] by auto
        with that x(2) show ?thesis by (auto simp: settled_def ids')
      qed
      have setn: "y < ?n" if "settled g h' y" for y using that by (simp add: settled_def)
      have km': "keys_match g h' ?ds" using km res' by (auto simp: keys_match_def)
      have inv0: "dinv g src x (adjList (cities g ! x)) s0"
        unfolding dinv_def f0
      proof (intro conjI allI impI ballI)
        show "heap_inv h'" by (rule hinv')
        show "keys_match g h' ?ds" by (rule km')
      next
        fix y e' assume sy: "settled g h' y" and fin: "?ds ! y < INF_DIST"
          and e': "e' \<in> set (adjList (cities g ! y))"
        show "(y = x \<and> e' \<in> set (adjList (cities g ! x))) \<or> relaxed g ?ds y e'"
        proof (cases "y = x")
          case True
          with e' show ?thesis by simp
        next
          case False
          with sy set' [OF setn [OF sy]] have "settled g ?h y" by simp
          from rel [OF this fin e'] show ?thesis by simp
        qed
      next
        fix a b assume ab: "settled g h' a \<and> b < ?n \<and> \<not> settled g h' b"
        then have b: "b < ?n" "\<not> settled g ?h b" "b \<noteq> x" using set' [of b] by auto
        from ab have a: "settled g ?h a \<or> a = x" using set' [OF setn] by blast
        then show "?ds ! a \<le> ?ds ! b"
        proof
          assume "settled g ?h a"
          from mono [OF this b(1,2)] show ?thesis .
        next
          assume "a = x"
          with minx [OF b(1,2)] show ?thesis by simp
        qed
      qed (use inv in \<open>auto simp: dinv_def\<close>)
      have mid0: "dmid g x s0"
        unfolding dmid_def f0
      proof (intro conjI allI impI)
        show "settled g h' x" using set' [OF x(1)] by simp
      next
        fix a assume "settled g h' a"
        then have "settled g ?h a \<or> a = x" using set' [OF setn] by blast
        then show "?ds ! a \<le> ?ds ! x"
        proof
          assume "settled g ?h a"
          from mono [OF this x(1) nsx] show ?thesis .
        qed simp
      next
        fix b assume "b < ?n" "\<not> settled g h' b"
        then have "b < ?n" "\<not> settled g ?h b" using set' [of b] by auto
        from minx [OF this] show "?ds ! x \<le> ?ds ! b" .
      qed
      from relaxEdges_correct [OF ginv fit x(1) subset_refl inv0 mid0] obtain s1 where
        s1: "relaxEdges g x (adjList (cities g ! x)) s0 = Inr s1" "dinv g src x [] s1" by blast
      from relaxEdges_size [OF s1(1)] sz' ne have "heap_size (dheap s1) < heap_size ?h"
        by (simp add: f0)
      from less.hyps [OF this s1(2)] obtain s' where
        s': "dijkstraLoop g (int dest) s1 = Inr s'" "dpost g src dest (dist_arr s') (parent_arr s')"
        by blast
      from ne ex fx xd s1(1) s'(1) have "dijkstraLoop g (int dest) s = Inr s'"
        by (simp add: dijkstraLoop.simps [of g "int dest" s] isHeapEmpty_def s0_def)
      with s'(2) show ?thesis by simp
    qed
  qed
qed

lemma createMinHeap_inv: "heap_inv (createMinHeap n)" "resident (createMinHeap n) = {}"
  "heap_size (createMinHeap n) = 0" "heap_capacity (createMinHeap n) = n"
  by (simp_all add: createMinHeap_def heap_inv_def heap_wf_def heap_ordered_def
        pos_consistent_def resident_def)

lemma insertAll_correct:
  "heap_inv h \<Longrightarrow> heap_size h + length cs \<le> heap_capacity h \<Longrightarrow> distinct (map cityID cs) \<Longrightarrow>
   (\<forall>c \<in> set cs. pos_ok (cityID c) \<and> cityID c \<notin> node_cityID ` resident h) \<Longrightarrow>
   length ds = length cs \<Longrightarrow>
     \<exists>h'. insertAll (zip cs ds) h = Inr h' \<and> heap_inv h' \<and>
          resident h' = resident h \<union>
            (\<lambda>(c, d). \<lparr>node_cityID = cityID c, node_distance = d, fScore = d\<rparr>) ` set (zip cs ds)"
proof (induction cs arbitrary: ds h)
  case Nil
  then show ?case by simp
next
  case (Cons c cs)
  from Cons.prems(5) obtain d ds' where ds: "ds = d # ds'" "length ds' = length cs"
    by (cases ds) auto
  from Cons.prems have room: "heap_size h < heap_capacity h" and ok: "pos_ok (cityID c)"
    and fresh: "cityID c \<notin> node_cityID ` resident h" by auto
  from insertHeap_correct [OF Cons.prems(1) room ok fresh, of d d] obtain h1 where
    h1: "insertHeap h (cityID c) d d = Inr h1" "heap_inv h1"
      "heap_size h1 = heap_size h + 1" "heap_capacity h1 = heap_capacity h"
      "resident h1 = insert \<lparr>node_cityID = cityID c, node_distance = d, fScore = d\<rparr> (resident h)"
    by blast
  have a: "heap_size h1 + length cs \<le> heap_capacity h1" using Cons.prems(2) h1(3,4) by simp
  have b: "distinct (map cityID cs)" using Cons.prems(3) by simp
  have c: "\<forall>c' \<in> set cs. pos_ok (cityID c') \<and> cityID c' \<notin> node_cityID ` resident h1"
    using Cons.prems(3,4) h1(5) by (auto simp: image_iff)
  from Cons.IH [OF h1(2) a b c ds(2)] obtain h' where
    h': "insertAll (zip cs ds') h1 = Inr h'" "heap_inv h'"
      "resident h' = resident h1 \<union>
         (\<lambda>(c, d). \<lparr>node_cityID = cityID c, node_distance = d, fScore = d\<rparr>) ` set (zip cs ds')"
    by blast
  from h1(1) h'(1) have "insertAll (zip (c # cs) ds) h = Inr h'" by (simp add: ds)
  moreover from h'(3) h1(5) have "resident h' = resident h \<union>
        (\<lambda>(c, d). \<lparr>node_cityID = cityID c, node_distance = d, fScore = d\<rparr>) ` set (zip (c # cs) ds)"
    by (simp add: ds)
  ultimately show ?case using h'(2) by blast
qed

lemma addToPath_ok:
  assumes "0 < pathCapacity pr" and "pathLength pr \<le> pathCapacity pr"
  shows "\<exists>pr'. addToPath pr c = Inr pr' \<and> path pr' = path pr @ [c] \<and>
           totalDistance pr' = totalDistance pr \<and>
           0 < pathCapacity pr' \<and> pathLength pr' \<le> pathCapacity pr'"
  using assms by (auto simp: addToPath_def pathLength_def Let_def)

lemma tracePath_total:
  fixes ds :: "int list"
  assumes chain: "\<And>v. v < numCities g \<Longrightarrow> ps ! v = -1 \<or>
            (0 \<le> ps ! v \<and> ps ! v < int (numCities g) \<and> ds ! nat (ps ! v) < ds ! v)"
    and nonneg: "\<And>v. v < numCities g \<Longrightarrow> 0 \<le> ds ! v"
  shows "cur < numCities g \<Longrightarrow> 0 < pathCapacity pr \<Longrightarrow> pathLength pr \<le> pathCapacity pr \<Longrightarrow>
           \<exists>pr'. tracePath g ps (int cur) pr = Some (Inr pr') \<and>
                 totalDistance pr' = totalDistance pr \<and> path pr' \<noteq> []"
proof (induction "nat (ds ! cur)" arbitrary: cur pr rule: less_induct)
  case less
  note cur = less.prems(1)
  from addToPath_ok [OF less.prems(2,3), of "cityID (cities g ! cur)"] obtain pr1 where
    pr1: "addToPath pr (cityID (cities g ! cur)) = Inr pr1"
      "path pr1 = path pr @ [cityID (cities g ! cur)]"
      "totalDistance pr1 = totalDistance pr"
      "0 < pathCapacity pr1" "pathLength pr1 \<le> pathCapacity pr1"
    by blast
  have step: "tracePath g ps (int cur) pr = tracePath g ps (ps ! cur) pr1"
    using cur pr1(1) by (subst tracePath.simps) simp
  from chain [OF cur] show ?case
  proof
    assume "ps ! cur = -1"
    then have "tracePath g ps (ps ! cur) pr1 = Some (Inr pr1)"
      by (subst tracePath.simps) simp
    with step pr1 show ?thesis by simp
  next
    assume p: "0 \<le> ps ! cur \<and> ps ! cur < int (numCities g) \<and> ds ! nat (ps ! cur) < ds ! cur"
    define q where "q = nat (ps ! cur)"
    from p have q: "q < numCities g" "int q = ps ! cur" "ds ! q < ds ! cur"
      by (auto simp: q_def)
    from nonneg [OF q(1)] q(3) have "nat (ds ! q) < nat (ds ! cur)" by simp
    from less.hyps [OF this q(1) pr1(4,5)] obtain pr' where
      "tracePath g ps (int q) pr1 = Some (Inr pr')" "totalDistance pr' = totalDistance pr1"
      "path pr' \<noteq> []" by blast
    with step q(2) pr1(3) show ?thesis by simp
  qed
qed

lemma dijkstra_init:
  assumes ginv: "graph_inv g" and idr: "ids_in_range g" and src: "src < numCities g"
  shows "\<exists>h. insertAll (zip (cities g) ((replicate (numCities g) INF_DIST)[src := 0]))
               (createMinHeap (numCities g)) = Inr h \<and>
             dinv g src 0 []
               \<lparr>dist_arr = (replicate (numCities g) INF_DIST)[src := 0],
                parent_arr = replicate (numCities g) (-1), dheap = h\<rparr>"
proof -
  let ?n = "numCities g"
  let ?ds = "(replicate ?n INF_DIST)[src := 0]"
  let ?mk = "\<lambda>(c, d). \<lparr>node_cityID = cityID c, node_distance = d, fScore = d\<rparr>"
  have a: "heap_size (createMinHeap ?n) + length (cities g) \<le> heap_capacity (createMinHeap ?n)"
    by (simp add: createMinHeap_inv numCities_def)
  have b: "distinct (map cityID (cities g))" using ginv by (simp add: graph_inv_def)
  have c: "\<forall>c \<in> set (cities g). pos_ok (cityID c) \<and>
             cityID c \<notin> node_cityID ` resident (createMinHeap ?n)"
    using idr by (simp add: ids_in_range_def createMinHeap_inv)
  have d: "length ?ds = length (cities g)" by (simp add: numCities_def)
  from insertAll_correct [OF createMinHeap_inv(1) a b c d] obtain h where
    h: "insertAll (zip (cities g) ?ds) (createMinHeap ?n) = Inr h" "heap_inv h"
      "resident h = ?mk ` set (zip (cities g) ?ds)"
    by (auto simp: createMinHeap_inv)
  have res: "m \<in> resident h \<longleftrightarrow>
      (\<exists>v < ?n. m = \<lparr>node_cityID = idAt g v, node_distance = ?ds ! v, fScore = ?ds ! v\<rparr>)" for m
  proof
    assume "m \<in> resident h"
    with h(3) obtain c d where "(c, d) \<in> set (zip (cities g) ?ds)"
      "m = \<lparr>node_cityID = cityID c, node_distance = d, fScore = d\<rparr>" by auto
    then show "\<exists>v < ?n. m = \<lparr>node_cityID = idAt g v, node_distance = ?ds ! v, fScore = ?ds ! v\<rparr>"
      by (auto simp: in_set_zip numCities_def idAt_def)
  next
    assume "\<exists>v < ?n. m = \<lparr>node_cityID = idAt g v, node_distance = ?ds ! v, fScore = ?ds ! v\<rparr>"
    then obtain v where v: "v < ?n"
      "m = \<lparr>node_cityID = idAt g v, node_distance = ?ds ! v, fScore = ?ds ! v\<rparr>" by blast
    then have "(cities g ! v, ?ds ! v) \<in> set (zip (cities g) ?ds)"
      by (auto simp: in_set_zip numCities_def intro!: exI [of _ v])
    then have "?mk (cities g ! v, ?ds ! v) \<in> resident h" unfolding h(3) by (rule imageI)
    with v(2) show "m \<in> resident h" by (simp add: idAt_def)
  qed
  have none: "\<not> settled g h v" if "v < ?n" for v
  proof -
    from that res have "\<lparr>node_cityID = idAt g v, node_distance = ?ds ! v, fScore = ?ds ! v\<rparr>
        \<in> resident h" by blast
    then have "idAt g v \<in> node_cityID ` resident h" by force
    then show ?thesis by (simp add: settled_def)
  qed
  have dsv: "?ds ! v = (if v = src then 0 else INF_DIST)" if "v < ?n" for v
    using that src by (simp add: nth_list_update)
  have "dinv g src 0 [] \<lparr>dist_arr = ?ds, parent_arr = replicate ?n (-1), dheap = h\<rparr>"
    unfolding dinv_def
  proof (intro conjI allI impI ballI)
    show "keys_match g (dheap \<lparr>dist_arr = ?ds, parent_arr = replicate ?n (-1), dheap = h\<rparr>)
            (dist_arr \<lparr>dist_arr = ?ds, parent_arr = replicate ?n (-1), dheap = h\<rparr>)"
      using res by (fastforce simp: keys_match_def)
  next
    fix v assume v: "v < ?n"
      and "dist_arr \<lparr>dist_arr = ?ds, parent_arr = replicate ?n (-1), dheap = h\<rparr> ! v < INF_DIST"
    with dsv [OF v] have "v = src" by (auto split: if_splits)
    moreover have "idAt g src \<in> cityIDs g" using src by (simp add: idAt_def cityIDs_def numCities_def)
    ultimately show "walk g (idAt g src) (idAt g v)
        (dist_arr \<lparr>dist_arr = ?ds, parent_arr = replicate ?n (-1), dheap = h\<rparr> ! v)"
      using dsv [OF v] by (simp add: walk_start)
  qed (use h(2) src dsv none in \<open>auto simp: INF_DIST_def settled_def\<close>)
  with h(1) show ?thesis by blast
qed

lemma dijkstra_result:
  assumes ginv: "graph_inv g" and idr: "ids_in_range g" and fit: "weights_fit g"
    and s: "s \<in> cityIDs g" and d: "d \<in> cityIDs g"
  shows "\<exists>ds ps. dpost g (slotOf g s) (slotOf g d) ds ps \<and>
           snd (dijkstra g s d) =
             (if ds ! slotOf g d = INF_DIST then Some (Inr (createPathResult (numCities g)))
              else (case tracePath g ps (int (slotOf g d))
                           ((createPathResult (numCities g))\<lparr>totalDistance := ds ! slotOf g d\<rparr>) of
                      None \<Rightarrow> None
                    | Some (Inl e) \<Rightarrow> Some (Inl e)
                    | Some (Inr pr) \<Rightarrow> Some (Inr (reversePath pr))))"
proof -
  let ?n = "numCities g"
  define src where "src = slotOf g s"
  define dest where "dest = slotOf g d"
  from slotOf_member [OF s] have si: "findCityIndex g s = int src" "src < ?n"
    by (simp_all add: src_def slotOf_def)
  from slotOf_member [OF d] have di: "findCityIndex g d = int dest" "dest < ?n"
    by (simp_all add: dest_def slotOf_def)
  from dijkstra_init [OF ginv idr si(2)] obtain h where
    h: "insertAll (zip (cities g) ((replicate ?n INF_DIST)[src := 0])) (createMinHeap ?n) = Inr h"
    and inv: "dinv g src 0 []
               \<lparr>dist_arr = (replicate ?n INF_DIST)[src := 0],
                parent_arr = replicate ?n (-1), dheap = h\<rparr>"
    by blast
  from dijkstraLoop_correct [OF ginv fit di(2) inv] obtain s' where
    s': "dijkstraLoop g (int dest)
           \<lparr>dist_arr = (replicate ?n INF_DIST)[src := 0],
            parent_arr = replicate ?n (-1), dheap = h\<rparr> = Inr s'"
    and post: "dpost g src dest (dist_arr s') (parent_arr s')"
    by blast
  have "snd (dijkstra g s d) =
          (if dist_arr s' ! dest = INF_DIST then Some (Inr (createPathResult ?n))
           else (case tracePath g (parent_arr s') (int dest)
                        ((createPathResult ?n)\<lparr>totalDistance := dist_arr s' ! dest\<rparr>) of
                   None \<Rightarrow> None
                 | Some (Inl e) \<Rightarrow> Some (Inl e)
                 | Some (Inr pr) \<Rightarrow> Some (Inr (reversePath pr))))"
    by (simp add: dijkstra_def si(1) di(1) h s' Let_def)
  with post show ?thesis unfolding src_def dest_def by blast
qed


lemma dpost_result:
  assumes post: "dpost g src dest ds ps" and src: "src < numCities g" "idAt g src = s"
    and dest: "dest < numCities g" "idAt g dest = d"
    and res: "r = (if ds ! dest = INF_DIST then Some (Inr (createPathResult (numCities g)))
              else (case tracePath g ps (int dest)
                           ((createPathResult (numCities g))\<lparr>totalDistance := ds ! dest\<rparr>) of
                      None \<Rightarrow> None
                    | Some (Inl e) \<Rightarrow> Some (Inl e)
                    | Some (Inr pr) \<Rightarrow> Some (Inr (reversePath pr))))"
  shows "\<exists>pr. r = Some (Inr pr) \<and>
           (if \<exists>w. walk g s d w \<and> w < INF_DIST
            then path pr \<noteq> [] \<and> walk g s d (totalDistance pr) \<and>
                 (\<forall>w. walk g s d w \<longrightarrow> totalDistance pr \<le> w)
            else path pr = [] \<and> totalDistance pr = 0)"
proof -
  let ?n = "numCities g"
  from post src dest have rng: "\<And>v. v < ?n \<Longrightarrow> 0 \<le> ds ! v" "ds ! dest \<le> INF_DIST"
    and snd: "ds ! dest < INF_DIST \<Longrightarrow> walk g s d (ds ! dest)"
    and chain: "\<And>v. v < ?n \<Longrightarrow> ps ! v = -1 \<or>
          (0 \<le> ps ! v \<and> ps ! v < int ?n \<and> ds ! nat (ps ! v) < ds ! v)"
    and low: "\<And>w. walk g s d w \<Longrightarrow> ds ! dest \<le> w"
    unfolding dpost_def by auto
  show ?thesis
  proof (cases "ds ! dest = INF_DIST")
    case True
    with low have "\<not> (\<exists>w. walk g s d w \<and> w < INF_DIST)" by force
    with True res show ?thesis by (simp add: createPathResult_def)
  next
    case False
    with rng(2) have lt: "ds ! dest < INF_DIST" by simp
    let ?pr0 = "(createPathResult ?n)\<lparr>totalDistance := ds ! dest\<rparr>"
    from dest(1) have cap: "0 < pathCapacity ?pr0" "pathLength ?pr0 \<le> pathCapacity ?pr0"
      by (simp_all add: createPathResult_def pathLength_def)
    from tracePath_total [of g ps ds, OF chain rng(1) dest(1) cap] obtain pr' where
      pr': "tracePath g ps (int dest) ?pr0 = Some (Inr pr')"
        "totalDistance pr' = totalDistance ?pr0" "path pr' \<noteq> []"
      by blast
    from False res pr'(1) have "r = Some (Inr (reversePath pr'))" by simp
    moreover have "path (reversePath pr') \<noteq> []" "totalDistance (reversePath pr') = ds ! dest"
      using pr'(2,3) by (simp_all add: reversePath_def)
    moreover have "\<exists>w. walk g s d w \<and> w < INF_DIST" using snd [OF lt] lt by blast
    ultimately show ?thesis using snd [OF lt] low by auto
  qed
qed

lemma dijkstra_optimal:
  assumes "graph_inv g" and "ids_in_range g" and "weights_fit g"
    and s: "s \<in> cityIDs g" and d: "d \<in> cityIDs g"
  shows "\<exists>pr. snd (dijkstra g s d) = Some (Inr pr) \<and>
           (if \<exists>w. walk g s d w \<and> w < INF_DIST
            then path pr \<noteq> [] \<and> walk g s d (totalDistance pr) \<and>
                 (\<forall>w. walk g s d w \<longrightarrow> totalDistance pr \<le> w)
            else path pr = [] \<and> totalDistance pr = 0)"
proof -
  from dijkstra_result [OF assms] obtain ds ps where
    post: "dpost g (slotOf g s) (slotOf g d) ds ps"
    and res: "snd (dijkstra g s d) =
             (if ds ! slotOf g d = INF_DIST then Some (Inr (createPathResult (numCities g)))
              else (case tracePath g ps (int (slotOf g d))
                           ((createPathResult (numCities g))\<lparr>totalDistance := ds ! slotOf g d\<rparr>) of
                      None \<Rightarrow> None
                    | Some (Inl e) \<Rightarrow> Some (Inl e)
                    | Some (Inr pr) \<Rightarrow> Some (Inr (reversePath pr))))"
    by blast
  from slotOf_member [OF s] slotOf_member [OF d]
  show ?thesis by (intro dpost_result [OF post _ _ _ _ res]) simp_all
qed

section \<open>Correctness of A*\<close>

subsection \<open>The heuristic\<close>

lemma isqrt_correct: "isqrt n * isqrt n \<le> n \<and> n < (isqrt n + 1) * (isqrt n + 1)"
proof (induction n rule: isqrt.induct)
  case (1 n)
  show ?case
  proof (cases "n < 2")
    case True
    then have "n = 0 \<or> n = 1" by auto
    then show ?thesis by (auto simp: isqrt.simps [of n])
  next
    case False
    define s where "s = isqrt (n div 4)"
    from "1.IH" [OF False] have ih: "s * s \<le> n div 4" "n div 4 < (s + 1) * (s + 1)"
      by (simp_all add: s_def)
    have lo: "(2 * s) * (2 * s) \<le> n"
    proof -
      have "(2 * s) * (2 * s) = 4 * (s * s)" by simp
      also have "\<dots> \<le> 4 * (n div 4)" using ih(1) by simp
      also have "\<dots> \<le> n" by simp
      finally show ?thesis .
    qed
    have hi: "n < (2 * s + 2) * (2 * s + 2)"
    proof -
      have "n < 4 * (n div 4) + 4" by presburger
      also have "\<dots> \<le> 4 * ((s + 1) * (s + 1))" using ih(2) by simp
      also have "\<dots> = (2 * s + 2) * (2 * s + 2)" by (simp add: algebra_simps)
      finally show ?thesis .
    qed
    show ?thesis
    proof (cases "(2 * s + 1) * (2 * s + 1) \<le> n")
      case True
      with False have "isqrt n = 2 * s + 1" by (simp add: isqrt.simps [of n] s_def Let_def)
      with True hi show ?thesis by (simp add: algebra_simps)
    next
      case nle: False
      with False have "isqrt n = 2 * s" by (simp add: isqrt.simps [of n] s_def Let_def)
      with nle lo show ?thesis by (simp add: algebra_simps)
    qed
  qed
qed

lemma isqrt_real:
  "real (isqrt n) \<le> sqrt (real n)" "sqrt (real n) < real (isqrt n) + 1"
proof -
  from isqrt_correct [of n] have "real (isqrt n * isqrt n) \<le> real n"
    and "real n < real ((isqrt n + 1) * (isqrt n + 1))"
    by (simp_all only: of_nat_le_iff of_nat_less_iff)
  then have a: "(real (isqrt n))\<^sup>2 \<le> real n" and b: "real n < (real (isqrt n) + 1)\<^sup>2"
    by (simp_all add: power2_eq_square algebra_simps)
  from a show "real (isqrt n) \<le> sqrt (real n)" by (rule real_le_rsqrt)
  from b show "sqrt (real n) < real (isqrt n) + 1" by (intro real_less_lsqrt) simp_all
qed

definition sqdist :: "graph \<Rightarrow> nat \<Rightarrow> nat \<Rightarrow> int" where
  "sqdist g i j =
     (city_x (cities g ! i) - city_x (cities g ! j)) * (city_x (cities g ! i) - city_x (cities g ! j)) +
     (city_y (cities g ! i) - city_y (cities g ! j)) * (city_y (cities g ! i) - city_y (cities g ! j))"

definition coords_fit :: "graph \<Rightarrow> bool" where
  "coords_fit g \<longleftrightarrow>
     (\<forall>i < numCities g. \<forall>j < numCities g. sqdist g i j < 2147483648)"

definition hval :: "graph \<Rightarrow> nat \<Rightarrow> nat \<Rightarrow> int" where
  "hval g i j = int (isqrt (nat (sqdist g i j)))"

definition admissible :: "graph \<Rightarrow> bool" where
  "admissible g \<longleftrightarrow>
     (\<forall>i < numCities g. \<forall>e \<in> set (adjList (cities g ! i)). \<forall>j < numCities g.
        cityID (cities g ! j) = destCityID e \<longrightarrow>
        sqrt (real_of_int (sqdist g i j)) \<le> real_of_int (distance e))"

lemma abs_le_square: "\<bar>a\<bar> \<le> a * a" for a :: int
proof (cases "a = 0")
  case False
  then have "1 \<le> \<bar>a\<bar>" by simp
  then have "\<bar>a\<bar> * 1 \<le> \<bar>a\<bar> * \<bar>a\<bar>" by (intro mult_left_mono) simp_all
  then show ?thesis by (simp add: abs_mult_self_eq)
qed simp

lemma heuristic_val:
  assumes "coords_fit g" and "i < numCities g" and "j < numCities g"
  shows "heuristic g i j = Inr (hval g i j)"
proof -
  define dx where "dx = city_x (cities g ! i) - city_x (cities g ! j)"
  define dy where "dy = city_y (cities g ! i) - city_y (cities g ! j)"
  from assms have lt: "dx * dx + dy * dy < 2147483648"
    by (simp add: coords_fit_def sqdist_def dx_def dy_def)
  have sq: "0 \<le> dx * dx" "0 \<le> dy * dy" by simp_all
  with lt have xx: "dx * dx < 2147483648" and yy: "dy * dy < 2147483648" by linarith+
  from abs_le_square [of dx] xx have x: "- 2147483648 \<le> dx" "dx < 2147483648" by linarith+
  from abs_le_square [of dy] yy have y: "- 2147483648 \<le> dy" "dy < 2147483648" by linarith+
  have a: "int32 dx = dx" "int32 dy = dy" using x y by (simp_all add: int32_id)
  have "- 2147483648 \<le> dx * dx" "- 2147483648 \<le> dy * dy"
    using zero_le_square [of dx] zero_le_square [of dy] by linarith+
  then have b: "int32 (dx * dx) = dx * dx" "int32 (dy * dy) = dy * dy"
    using xx yy by (simp_all only: int32_id)
  have "- 2147483648 \<le> dx * dx + dy * dy"
    using zero_le_square [of dx] zero_le_square [of dy] by linarith
  then have c: "int32 (dx * dx + dy * dy) = dx * dx + dy * dy"
    using lt by (simp only: int32_id)
  have "\<not> dx * dx + dy * dy < 0"
    using zero_le_square [of dx] zero_le_square [of dy] by linarith
  then show ?thesis
    unfolding heuristic_def hval_def sqdist_def Let_def dx_def [symmetric] dy_def [symmetric]
    by (simp add: a b c)
qed

lemma sqdist_nonneg: "0 \<le> sqdist g i j"
  by (simp add: sqdist_def)

lemma hval_nonneg: "0 \<le> hval g i j"
  by (simp add: hval_def)

lemma hval_self: "hval g i i = 0"
  by (simp add: hval_def sqdist_def isqrt.simps [of 0])

lemma hval_real:
  "real_of_int (hval g i j) \<le> sqrt (real_of_int (sqdist g i j))"
  "sqrt (real_of_int (sqdist g i j)) < real_of_int (hval g i j) + 1"
  using isqrt_real [of "nat (sqdist g i j)"] sqdist_nonneg [of g i j]
  by (simp_all add: hval_def)

lemma hval_bound:
  assumes "coords_fit g" and "i < numCities g" and "j < numCities g"
  shows "hval g i j < 2147483648"
proof -
  let ?k = "isqrt (nat (sqdist g i j))"
  from isqrt_correct [of "nat (sqdist g i j)"] have "?k * ?k \<le> nat (sqdist g i j)" by simp
  moreover have "?k \<le> ?k * ?k" by (cases ?k) simp_all
  ultimately have "int ?k \<le> sqdist g i j" using sqdist_nonneg [of g i j] by linarith
  moreover from assms have "sqdist g i j < 2147483648" by (simp add: coords_fit_def)
  ultimately show ?thesis unfolding hval_def by linarith
qed

lemma sqdist_cmod:
  "sqrt (real_of_int (sqdist g i j)) =
     cmod (Complex (real_of_int (city_x (cities g ! i))) (real_of_int (city_y (cities g ! i)))
           - Complex (real_of_int (city_x (cities g ! j))) (real_of_int (city_y (cities g ! j))))"
  by (simp add: sqdist_def cmod_def power2_eq_square)

lemma sqdist_triangle:
  "sqrt (real_of_int (sqdist g i k))
     \<le> sqrt (real_of_int (sqdist g i j)) + sqrt (real_of_int (sqdist g j k))"
proof -
  let ?P = "\<lambda>v. Complex (real_of_int (city_x (cities g ! v))) (real_of_int (city_y (cities g ! v)))"
  have "cmod (?P i - ?P k) = cmod ((?P i - ?P j) + (?P j - ?P k))" by simp
  also have "\<dots> \<le> cmod (?P i - ?P j) + cmod (?P j - ?P k)" by (rule norm_triangle_ineq)
  finally show ?thesis by (simp only: sqdist_cmod)
qed

lemma hval_consistent:
  assumes adm: "admissible g" and i: "i < numCities g" and e: "e \<in> set (adjList (cities g ! i))"
    and j: "j < numCities g" "cityID (cities g ! j) = destCityID e"
  shows "hval g i k \<le> distance e + hval g j k"
proof -
  from adm i e j have w: "sqrt (real_of_int (sqdist g i j)) \<le> real_of_int (distance e)"
    unfolding admissible_def by blast
  have "real_of_int (hval g i k) \<le> sqrt (real_of_int (sqdist g i k))" by (rule hval_real)
  also have "\<dots> \<le> sqrt (real_of_int (sqdist g i j)) + sqrt (real_of_int (sqdist g j k))"
    by (rule sqdist_triangle)
  also have "\<dots> < real_of_int (distance e) + (real_of_int (hval g j k) + 1)"
    using w hval_real(2) [of g j k] by linarith
  finally have "real_of_int (hval g i k) < real_of_int (distance e + hval g j k + 1)" by simp
  then have "hval g i k < distance e + hval g j k + 1" by (simp only: of_int_less_iff)
  then show ?thesis by simp
qed

subsection \<open>The search\<close>

lemma heap_size_card:
  assumes wf: "heap_wf h" and pc: "pos_consistent h"
  shows "card (node_cityID ` resident h) = heap_size h"
proof -
  let ?xs = "map node_cityID (take (heap_size h) (nodes h))"
  from wf have len: "length ?xs = heap_size h" by (simp add: heap_wf_def)
  have "distinct ?xs"
    unfolding distinct_conv_nth
  proof (intro allI impI)
    fix i j assume "i < length ?xs" "j < length ?xs" "i \<noteq> j"
    with len pos_consistent_inj [OF pc, of i j] show "?xs ! i \<noteq> ?xs ! j" by auto
  qed
  then have "card (set ?xs) = length ?xs" by (rule distinct_card)
  with len show ?thesis by (simp add: resident_def)
qed

lemma heap_room:
  assumes ginv: "graph_inv g" and wf: "heap_wf h" and pc: "pos_consistent h"
    and sub: "node_cityID ` resident h \<subseteq> idAt g ` {..<numCities g}"
    and v: "v < numCities g" "idAt g v \<notin> node_cityID ` resident h"
  shows "heap_size h < numCities g"
proof -
  let ?A = "idAt g ` {..<numCities g}"
  have fin: "finite ?A" by simp
  from sub v(2) have "node_cityID ` resident h \<subseteq> ?A - {idAt g v}" by blast
  then have "card (node_cityID ` resident h) \<le> card (?A - {idAt g v})"
    by (intro card_mono) auto
  also have "\<dots> < card ?A" using v(1) by (intro card_Diff1_less) auto
  also have "\<dots> \<le> numCities g" using card_image_le [of "{..<numCities g}" "idAt g"] by simp
  finally show ?thesis by (simp add: heap_size_card [OF wf pc])
qed

lemma heap_put:
  assumes hinv: "heap_inv h" and ok: "pos_ok cid"
    and res: "\<And>m. m \<in> resident h \<Longrightarrow> node_cityID m = cid \<Longrightarrow> f \<le> fScore m"
    and fresh: "cid \<notin> node_cityID ` resident h \<Longrightarrow> pos h cid = -1 \<and> heap_size h < heap_capacity h"
  shows "\<exists>h'. (if pos h cid = -1 then insertHeap h cid d f else decreaseKey h cid d f) = Inr h' \<and>
           heap_inv h' \<and> heap_capacity h' = heap_capacity h \<and>
           node_cityID ` resident h' = insert cid (node_cityID ` resident h) \<and>
           (\<forall>k \<in> resident h'. (node_cityID k = cid \<and> fScore k = f) \<or>
                                (k \<in> resident h \<and> node_cityID k \<noteq> cid)) \<and>
           (\<forall>c. c \<notin> node_cityID ` resident h \<and> c \<noteq> cid \<longrightarrow> pos h' c = pos h c)"
proof (cases "cid \<in> node_cityID ` resident h")
  case True
  then obtain m where m: "m \<in> resident h" "node_cityID m = cid" by auto
  from hinv have wf: "heap_wf h" and pc: "pos_consistent h" by (simp_all add: heap_inv_def)
  from resident_pos [OF wf pc m(1)] m(2) have "pos h cid \<noteq> -1" by auto
  moreover
  from decreaseKey_correct [OF hinv m(1) res [OF m], of d] m(2) obtain h' where
    h': "decreaseKey h cid d f = Inr h'" "heap_inv h'" "heap_capacity h' = heap_capacity h"
      "resident h' = insert (m\<lparr>node_distance := d, fScore := f\<rparr>) (resident h - {m})"
      "\<forall>c. c \<notin> node_cityID ` resident h \<longrightarrow> pos h' c = pos h c"
    by auto
  have "node_cityID ` resident h' = insert cid (node_cityID ` resident h)"
    using h'(4) m by auto
  moreover have "\<forall>k \<in> resident h'. (node_cityID k = cid \<and> fScore k = f) \<or>
                                (k \<in> resident h \<and> node_cityID k \<noteq> cid)"
  proof
    fix k assume "k \<in> resident h'"
    with h'(4) consider "k = m\<lparr>node_distance := d, fScore := f\<rparr>" | "k \<in> resident h" "k \<noteq> m"
      by auto
    then show "(node_cityID k = cid \<and> fScore k = f) \<or> (k \<in> resident h \<and> node_cityID k \<noteq> cid)"
    proof cases
      case 1
      with m(2) show ?thesis by simp
    next
      case 2
      from resident_distinct [OF wf pc 2(1) m(1)] 2(2) m(2) have "node_cityID k \<noteq> cid" by auto
      with 2(1) show ?thesis by simp
    qed
  qed
  ultimately show ?thesis using h'(1,2,3,5) by auto
next
  case False
  from fresh [OF False] have p: "pos h cid = -1" and room: "heap_size h < heap_capacity h" by auto
  from insertHeap_correct [OF hinv room ok False, of d f] obtain h' where
    h': "insertHeap h cid d f = Inr h'" "heap_inv h'" "heap_capacity h' = heap_capacity h"
      "resident h' = insert \<lparr>node_cityID = cid, node_distance = d, fScore = f\<rparr> (resident h)"
      "\<forall>c. c \<notin> node_cityID ` resident h \<and> c \<noteq> cid \<longrightarrow> pos h' c = pos h c"
    by blast
  have "node_cityID ` resident h' = insert cid (node_cityID ` resident h)"
    using h'(4) by auto
  moreover have "\<forall>k \<in> resident h'. (node_cityID k = cid \<and> fScore k = f) \<or>
                                (k \<in> resident h \<and> node_cityID k \<noteq> cid)"
    using h'(4) False by auto
  ultimately show ?thesis using p h'(1,2,3,5) by auto
qed

definition open_slot :: "graph \<Rightarrow> minheap \<Rightarrow> nat \<Rightarrow> bool" where
  "open_slot g h v \<longleftrightarrow> v < numCities g \<and> idAt g v \<in> node_cityID ` resident h"

definition closed_slot :: "graph \<Rightarrow> int list \<Rightarrow> minheap \<Rightarrow> nat \<Rightarrow> bool" where
  "closed_slot g gs h v \<longleftrightarrow>
     v < numCities g \<and> gs ! v < INF_DIST \<and> idAt g v \<notin> node_cityID ` resident h"

definition ainv :: "graph \<Rightarrow> nat \<Rightarrow> nat \<Rightarrow> nat \<Rightarrow> edge list \<Rightarrow> astate \<Rightarrow> bool" where
  "ainv g src dest u es s \<longleftrightarrow>
     length (gScore_arr s) = numCities g \<and> length (aparent_arr s) = numCities g \<and>
     heap_inv (aheap s) \<and> heap_capacity (aheap s) = numCities g \<and>
     (\<forall>m \<in> resident (aheap s). \<exists>v < numCities g.
          node_cityID m = idAt g v \<and> fScore m = gScore_arr s ! v + hval g v dest \<and>
          gScore_arr s ! v < INF_DIST) \<and>
     (\<forall>v < numCities g. gScore_arr s ! v = INF_DIST \<longrightarrow>
          idAt g v \<notin> node_cityID ` resident (aheap s) \<and> pos (aheap s) (idAt g v) = -1) \<and>
     src < numCities g \<and> gScore_arr s ! src = 0 \<and>
     (\<forall>v < numCities g. 0 \<le> gScore_arr s ! v \<and> gScore_arr s ! v \<le> INF_DIST) \<and>
     (\<forall>v < numCities g. gScore_arr s ! v < INF_DIST \<longrightarrow>
          walk g (idAt g src) (idAt g v) (gScore_arr s ! v)) \<and>
     (\<forall>x. closed_slot g (gScore_arr s) (aheap s) x \<longrightarrow>
          (\<forall>e \<in> set (adjList (cities g ! x)).
              (x = u \<and> e \<in> set es) \<or> relaxed g (gScore_arr s) x e)) \<and>
     (\<forall>x y. closed_slot g (gScore_arr s) (aheap s) x \<and> open_slot g (aheap s) y \<longrightarrow>
          gScore_arr s ! x + hval g x dest \<le> gScore_arr s ! y + hval g y dest) \<and>
     (\<forall>v < numCities g. aparent_arr s ! v = -1 \<or>
          (0 \<le> aparent_arr s ! v \<and> aparent_arr s ! v < int (numCities g) \<and>
           gScore_arr s ! nat (aparent_arr s ! v) < gScore_arr s ! v))"

definition amid :: "graph \<Rightarrow> nat \<Rightarrow> nat \<Rightarrow> astate \<Rightarrow> bool" where
  "amid g dest u s \<longleftrightarrow>
     closed_slot g (gScore_arr s) (aheap s) u \<and>
     (\<forall>x. closed_slot g (gScore_arr s) (aheap s) x \<longrightarrow>
          gScore_arr s ! x + hval g x dest \<le> gScore_arr s ! u + hval g u dest) \<and>
     (\<forall>y. open_slot g (aheap s) y \<longrightarrow>
          gScore_arr s ! u + hval g u dest \<le> gScore_arr s ! y + hval g y dest)"

lemma astar_skip:
  assumes inv: "ainv g src dest u (e # es) s" and skip: "relaxed g (gScore_arr s) u e"
  shows "ainv g src dest u es s"
proof -
  have "(x = u \<and> e' \<in> set es) \<or> relaxed g (gScore_arr s) x e'"
    if "closed_slot g (gScore_arr s) (aheap s) x"
      and "e' \<in> set (adjList (cities g ! x))" for x e'
  proof -
    from inv that have "(x = u \<and> e' \<in> set (e # es)) \<or> relaxed g (gScore_arr s) x e'"
      unfolding ainv_def by blast
    with skip show ?thesis by auto
  qed
  with inv show ?thesis unfolding ainv_def by blast
qed

lemma astar_update:
  assumes ginv: "graph_inv g" and idr: "ids_in_range g" and adm: "admissible g"
    and inv: "ainv g src dest u (e # es) s" and mid: "amid g dest u s"
    and u: "u < numCities g" and e: "e \<in> set (adjList (cities g ! u))"
    and less: "gScore_arr s ! u + distance e < gScore_arr s ! slotOf g (destCityID e)"
  shows "\<exists>h'. (if pos (aheap s) (destCityID e) = -1
                then insertHeap (aheap s) (destCityID e) (gScore_arr s ! u + distance e)
                       (gScore_arr s ! u + distance e + hval g (slotOf g (destCityID e)) dest)
                else decreaseKey (aheap s) (destCityID e) (gScore_arr s ! u + distance e)
                       (gScore_arr s ! u + distance e + hval g (slotOf g (destCityID e)) dest))
               = Inr h' \<and>
              ainv g src dest u es
                (s\<lparr>aparent_arr := (aparent_arr s)[slotOf g (destCityID e) := int u],
                   gScore_arr := (gScore_arr s)[slotOf g (destCityID e) := gScore_arr s ! u + distance e],
                   fScore_arr := fs', aheap := h'\<rparr>) \<and>
              amid g dest u
                (s\<lparr>aparent_arr := (aparent_arr s)[slotOf g (destCityID e) := int u],
                   gScore_arr := (gScore_arr s)[slotOf g (destCityID e) := gScore_arr s ! u + distance e],
                   fScore_arr := fs', aheap := h'\<rparr>) \<and>
              (\<forall>x. closed_slot g ((gScore_arr s)[slotOf g (destCityID e) := gScore_arr s ! u + distance e]) h' x
                    = closed_slot g (gScore_arr s) (aheap s) x)"
proof -
  let ?n = "numCities g"
  let ?gs = "gScore_arr s" and ?ps = "aparent_arr s" and ?h = "aheap s"
  define v where "v = slotOf g (destCityID e)"
  define t where "t = ?gs ! u + distance e"
  define f where "f = t + hval g v dest"
  let ?F = "\<lambda>gs x. gs ! x + hval g x dest"
  note tgt = edge_target [OF ginv u e]
  note sm = slotOf_member [OF tgt(1)]
  have vn: "v < ?n" and idv: "idAt g v = destCityID e" using sm by (simp_all add: v_def)
  from inv have len: "length ?gs = ?n" "length ?ps = ?n"
    and hinv: "heap_inv ?h" and cap: "heap_capacity ?h = ?n"
    and km: "\<And>m. m \<in> resident ?h \<Longrightarrow> \<exists>x < ?n. node_cityID m = idAt g x \<and>
                fScore m = ?F ?gs x \<and> ?gs ! x < INF_DIST"
    and fr: "\<And>x. x < ?n \<Longrightarrow> ?gs ! x = INF_DIST \<Longrightarrow>
                idAt g x \<notin> node_cityID ` resident ?h \<and> pos ?h (idAt g x) = -1"
    and src: "src < ?n" "?gs ! src = 0"
    and rng: "\<And>x. x < ?n \<Longrightarrow> 0 \<le> ?gs ! x \<and> ?gs ! x \<le> INF_DIST"
    and snd: "\<And>x. x < ?n \<Longrightarrow> ?gs ! x < INF_DIST \<Longrightarrow> walk g (idAt g src) (idAt g x) (?gs ! x)"
    and rel: "\<And>x e'. closed_slot g ?gs ?h x \<Longrightarrow> e' \<in> set (adjList (cities g ! x)) \<Longrightarrow>
                (x = u \<and> e' \<in> set (e # es)) \<or> relaxed g ?gs x e'"
    and mono: "\<And>x y. closed_slot g ?gs ?h x \<Longrightarrow> open_slot g ?h y \<Longrightarrow> ?F ?gs x \<le> ?F ?gs y"
    and par: "\<And>x. x < ?n \<Longrightarrow> ?ps ! x = -1 \<or>
                (0 \<le> ?ps ! x \<and> ?ps ! x < int ?n \<and> ?gs ! nat (?ps ! x) < ?gs ! x)"
    unfolding ainv_def by blast+
  from mid have cu: "closed_slot g ?gs ?h u"
    and below: "\<And>x. closed_slot g ?gs ?h x \<Longrightarrow> ?F ?gs x \<le> ?F ?gs u"
    and above: "\<And>y. open_slot g ?h y \<Longrightarrow> ?F ?gs u \<le> ?F ?gs y"
    unfolding amid_def by blast+
  from hinv have wf: "heap_wf ?h" and pc: "pos_consistent ?h" by (simp_all add: heap_inv_def)
  from cu have gu: "?gs ! u < INF_DIST" "idAt g u \<notin> node_cityID ` resident ?h"
    by (simp_all add: closed_slot_def)
  from rng [OF u] have gu0: "0 \<le> ?gs ! u" by simp
  from tgt(2) gu0 have tu: "?gs ! u < t" and t0: "0 < t" by (simp_all add: t_def)
  from less have tv: "t < ?gs ! v" by (simp add: t_def v_def)
  have cons: "hval g u dest \<le> distance e + hval g v dest"
    using hval_consistent [OF adm u e vn] idv by (simp add: idAt_def)
  then have fu: "?F ?gs u \<le> f" by (simp add: f_def t_def)
  have ncv: "\<not> closed_slot g ?gs ?h v"
  proof
    assume "closed_slot g ?gs ?h v"
    from below [OF this] fu tv show False by (simp add: f_def)
  qed
  have uv: "u \<noteq> v" using cu ncv by auto
  have okv: "pos_ok (destCityID e)"
    using idr vn idv unfolding ids_in_range_def idAt_def numCities_def
    by (metis nth_mem)
  have sub: "node_cityID ` resident ?h \<subseteq> idAt g ` {..<?n}"
    using km by auto
  have "\<exists>h'. (if pos ?h (destCityID e) = -1 then insertHeap ?h (destCityID e) t f
               else decreaseKey ?h (destCityID e) t f) = Inr h' \<and>
           heap_inv h' \<and> heap_capacity h' = heap_capacity ?h \<and>
           node_cityID ` resident h' = insert (destCityID e) (node_cityID ` resident ?h) \<and>
           (\<forall>k \<in> resident h'. (node_cityID k = destCityID e \<and> fScore k = f) \<or>
                                (k \<in> resident ?h \<and> node_cityID k \<noteq> destCityID e)) \<and>
           (\<forall>c. c \<notin> node_cityID ` resident ?h \<and> c \<noteq> destCityID e \<longrightarrow> pos h' c = pos ?h c)"
  proof (rule heap_put [OF hinv okv])
    fix m assume m: "m \<in> resident ?h" "node_cityID m = destCityID e"
    from km [OF m(1)] obtain x where x: "x < ?n" "node_cityID m = idAt g x" "fScore m = ?F ?gs x"
      by blast
    from idAt_inj [OF ginv x(1) vn] x(2) m(2) idv have "x = v" by simp
    with x(3) tv show "f \<le> fScore m" by (simp add: f_def)
  next
    assume nr: "destCityID e \<notin> node_cityID ` resident ?h"
    with ncv vn idv have "\<not> ?gs ! v < INF_DIST" by (simp add: closed_slot_def)
    with rng [OF vn] have "?gs ! v = INF_DIST" by simp
    from fr [OF vn this] idv have "pos ?h (destCityID e) = -1" by simp
    moreover from heap_room [OF ginv wf pc sub vn] nr idv cap
    have "heap_size ?h < heap_capacity ?h" by simp
    ultimately show "pos ?h (destCityID e) = -1 \<and> heap_size ?h < heap_capacity ?h" by simp
  qed
  then obtain h' where
    put: "(if pos ?h (destCityID e) = -1 then insertHeap ?h (destCityID e) t f
           else decreaseKey ?h (destCityID e) t f) = Inr h'"
    and hinv': "heap_inv h'" and cap': "heap_capacity h' = ?n"
    and ids': "node_cityID ` resident h' = insert (idAt g v) (node_cityID ` resident ?h)"
    and keys': "\<And>k. k \<in> resident h' \<Longrightarrow> (node_cityID k = idAt g v \<and> fScore k = f) \<or>
                                (k \<in> resident ?h \<and> node_cityID k \<noteq> idAt g v)"
    and frame': "\<And>c. c \<notin> node_cityID ` resident ?h \<Longrightarrow> c \<noteq> idAt g v \<Longrightarrow> pos h' c = pos ?h c"
    using cap idv by auto
  define gs' where "gs' = ?gs[v := t]"
  define s' where "s' = s\<lparr>aparent_arr := ?ps[v := int u], gScore_arr := gs',
                           fScore_arr := fs', aheap := h'\<rparr>"
  have f': "gScore_arr s' = gs'" "aparent_arr s' = ?ps[v := int u]" "aheap s' = h'"
    by (simp_all add: s'_def)
  have gsv: "gs' ! v = t" using vn len by (simp add: gs'_def)
  have gso: "gs' ! x = ?gs ! x" if "x \<noteq> v" for x using that by (simp add: gs'_def)
  have gle: "gs' ! x \<le> ?gs ! x" for x
    using tv gsv gso [of x] by (cases "x = v") auto
  have Fv: "?F gs' v = f" by (simp add: gsv f_def)
  have Fo: "?F gs' x = ?F ?gs x" if "x \<noteq> v" for x using gso [OF that] by simp
  have open': "open_slot g h' x \<longleftrightarrow> open_slot g ?h x \<or> x = v" for x
    using vn idAt_inj [OF ginv _ vn, of x] by (auto simp: open_slot_def ids')
  have closed': "closed_slot g gs' h' x \<longleftrightarrow> closed_slot g ?gs ?h x" for x
  proof (cases "x = v")
    case True
    with ncv show ?thesis by (simp add: closed_slot_def ids')
  next
    case False
    have "x < ?n \<Longrightarrow> idAt g x \<noteq> idAt g v" using idAt_inj [OF ginv _ vn, of x] False by auto
    with False gso show ?thesis by (auto simp: closed_slot_def ids')
  qed
  have vsrc: "v \<noteq> src" using tv t0 src(2) by auto
  have inv': "ainv g src dest u es s'"
    unfolding ainv_def f'
  proof (intro conjI allI impI ballI)
    show "length gs' = ?n" using len by (simp add: gs'_def)
    show "length (?ps[v := int u]) = ?n" using len by simp
    show "heap_inv h'" by (rule hinv')
    show "heap_capacity h' = ?n" by (rule cap')
    show "src < ?n" by (rule src(1))
    show "gs' ! src = 0" using vsrc src(2) gso by simp
  next
    fix k assume "k \<in> resident h'"
    from keys' [OF this]
    show "\<exists>x < ?n. node_cityID k = idAt g x \<and> fScore k = ?F gs' x \<and> gs' ! x < INF_DIST"
    proof
      assume "node_cityID k = idAt g v \<and> fScore k = f"
      moreover from tv rng [OF vn] gsv have "gs' ! v < INF_DIST" by simp
      ultimately show ?thesis using vn Fv by auto
    next
      assume k: "k \<in> resident ?h \<and> node_cityID k \<noteq> idAt g v"
      with km obtain x where x: "x < ?n" "node_cityID k = idAt g x" "fScore k = ?F ?gs x"
        "?gs ! x < INF_DIST" by blast
      with k have "x \<noteq> v" by auto
      with x gso Fo show ?thesis by auto
    qed
  next
    fix x assume x: "x < ?n" and inf: "gs' ! x = INF_DIST"
    have xv: "x \<noteq> v" using inf gsv tv rng [OF vn] by auto
    with inf gso have "?gs ! x = INF_DIST" by simp
    from fr [OF x this] have a: "idAt g x \<notin> node_cityID ` resident ?h" "pos ?h (idAt g x) = -1"
      by simp_all
    from idAt_inj [OF ginv x vn] xv have ne: "idAt g x \<noteq> idAt g v" by auto
    with a(1) show "idAt g x \<notin> node_cityID ` resident h'" by (simp add: ids')
    from frame' [OF a(1) ne] a(2) show "pos h' (idAt g x) = -1" by simp
  next
    fix x assume x: "x < ?n"
    show "0 \<le> gs' ! x" using rng [OF x] t0 gsv gso [of x] by (cases "x = v") auto
    show "gs' ! x \<le> INF_DIST" using rng [OF x] gle [of x] by simp
  next
    fix x assume x: "x < ?n" and fin: "gs' ! x < INF_DIST"
    show "walk g (idAt g src) (idAt g x) (gs' ! x)"
    proof (cases "x = v")
      case True
      from u have cu': "cities g ! u \<in> set (cities g)" by (simp add: numCities_def)
      from walk_step [OF snd [OF u gu(1)] cu' _ e] have "walk g (idAt g src) (destCityID e) t"
        by (simp add: idAt_def t_def)
      with True idv gsv show ?thesis by simp
    next
      case False
      with snd [OF x] fin gso show ?thesis by simp
    qed
  next
    fix x e' assume cx: "closed_slot g gs' h' x" and e': "e' \<in> set (adjList (cities g ! x))"
    from cx have cx0: "closed_slot g ?gs ?h x" by (simp add: closed')
    with ncv have xv: "x \<noteq> v" by auto
    from rel [OF cx0 e'] consider "x = u" "e' = e" | "x = u" "e' \<in> set es"
      | "relaxed g ?gs x e'" by auto
    then show "(x = u \<and> e' \<in> set es) \<or> relaxed g gs' x e'"
    proof cases
      case 1
      then show ?thesis using gsv gso [OF uv] by (simp add: relaxed_def v_def t_def)
    next
      case 2
      then show ?thesis by simp
    next
      case 3
      with gle [of "slotOf g (destCityID e')"] gso [OF xv] show ?thesis by (simp add: relaxed_def)
    qed
  next
    fix x y assume a: "closed_slot g gs' h' x \<and> open_slot g h' y"
    then have cx: "closed_slot g ?gs ?h x" and oy: "open_slot g ?h y \<or> y = v"
      by (simp_all add: closed' open')
    from cx ncv have xv: "x \<noteq> v" by auto
    show "?F gs' x \<le> ?F gs' y"
    proof (cases "y = v")
      case True
      with below [OF cx] fu Fv Fo [OF xv] show ?thesis by simp
    next
      case False
      with oy mono [OF cx] Fo xv show ?thesis by simp
    qed
  next
    fix x assume x: "x < ?n"
    show "?ps[v := int u] ! x = -1 \<or>
          (0 \<le> ?ps[v := int u] ! x \<and> ?ps[v := int u] ! x < int ?n \<and>
           gs' ! nat (?ps[v := int u] ! x) < gs' ! x)"
    proof (cases "x = v")
      case True
      with vn len u tu gsv gso [OF uv] show ?thesis by simp
    next
      case False
      then have px: "?ps[v := int u] ! x = ?ps ! x" by simp
      from par [OF x] show ?thesis
      proof
        assume "?ps ! x = -1"
        with px show ?thesis by simp
      next
        assume p: "0 \<le> ?ps ! x \<and> ?ps ! x < int ?n \<and> ?gs ! nat (?ps ! x) < ?gs ! x"
        from gle [of "nat (?ps ! x)"] p have "gs' ! nat (?ps ! x) < ?gs ! x" by simp
        with p px gso [OF False] show ?thesis by simp
      qed
    qed
  qed
  have mid': "amid g dest u s'"
    unfolding amid_def f'
  proof (intro conjI allI impI)
    show "closed_slot g gs' h' u" using cu by (simp add: closed')
  next
    fix x assume "closed_slot g gs' h' x"
    then have cx: "closed_slot g ?gs ?h x" by (simp add: closed')
    with ncv have "x \<noteq> v" by auto
    with below [OF cx] Fo uv show "?F gs' x \<le> ?F gs' u" by simp
  next
    fix y assume "open_slot g h' y"
    then have oy: "open_slot g ?h y \<or> y = v" by (simp add: open')
    show "?F gs' u \<le> ?F gs' y"
    proof (cases "y = v")
      case True
      with fu Fv Fo [OF uv] show ?thesis by simp
    next
      case False
      with oy above Fo uv show ?thesis by simp
    qed
  qed
  from put inv' mid' closed' show ?thesis
    unfolding s'_def gs'_def f_def v_def t_def by blast
qed

lemma hval_small:
  assumes "coords_fit g" and "i < numCities g" and "j < numCities g"
  shows "hval g i j < 46341"
proof (rule ccontr)
  let ?k = "isqrt (nat (sqdist g i j))"
  assume "\<not> hval g i j < 46341"
  then have k: "46341 \<le> ?k" by (simp add: hval_def)
  then have "46341 * 46341 \<le> ?k * ?k" by (intro mult_mono) simp_all
  also from isqrt_correct [of "nat (sqdist g i j)"] have "?k * ?k \<le> nat (sqdist g i j)" by simp
  finally have "2147488281 \<le> sqdist g i j" by simp
  moreover from assms have "sqdist g i j < 2147483648" by (simp add: coords_fit_def)
  ultimately show False by linarith
qed

lemma ainv_nil: "ainv g src dest u [] s \<Longrightarrow> ainv g src dest u' [] s"
  unfolding ainv_def by simp

lemma astarEdges_correct:
  assumes ginv: "graph_inv g" and idr: "ids_in_range g" and fit: "weights_fit g"
    and cfit: "coords_fit g" and adm: "admissible g"
    and u: "u < numCities g" and dest: "dest < numCities g"
  shows "set es \<subseteq> set (adjList (cities g ! u)) \<Longrightarrow> ainv g src dest u es s \<Longrightarrow> amid g dest u s \<Longrightarrow>
           \<exists>s'. astarEdges g u dest es s = Inr s' \<and> ainv g src dest u [] s' \<and> amid g dest u s' \<and>
                (\<forall>x. closed_slot g (gScore_arr s') (aheap s') x
                      = closed_slot g (gScore_arr s) (aheap s) x)"
proof (induction es arbitrary: s)
  case Nil
  then show ?case by simp
next
  case (Cons e es)
  from Cons.prems(1) have e: "e \<in> set (adjList (cities g ! u))"
    and sub: "set es \<subseteq> set (adjList (cities g ! u))" by auto
  note inv = Cons.prems(2) and mid = Cons.prems(3)
  note tgt = edge_target [OF ginv u e]
  note sm = slotOf_member [OF tgt(1)]
  let ?v = "findCityIndex g (destCityID e)"
  let ?sv = "slotOf g (destCityID e)"
  let ?t = "gScore_arr s ! u + distance e"
  have v: "?v \<noteq> -1" "nat ?v = ?sv" "?sv < numCities g" using sm by (simp_all add: slotOf_def)
  from inv u have gu: "0 \<le> gScore_arr s ! u" "gScore_arr s ! u \<le> INF_DIST"
    unfolding ainv_def by auto
  from inv v(3) have gv: "gScore_arr s ! ?sv \<le> INF_DIST" unfolding ainv_def by auto
  from edge_fit [OF fit u e] tgt(2) gu
  have t: "int32 ?t = ?t" by (intro int32_id) auto
  show ?case
  proof (cases "?t < gScore_arr s ! ?sv")
    case True
    have hv: "heuristic g ?sv dest = Inr (hval g ?sv dest)"
      by (rule heuristic_val [OF cfit v(3) dest])
    from hval_small [OF cfit v(3) dest] hval_nonneg [of g ?sv dest] True gv tgt(2) gu
    have f: "int32 (?t + hval g ?sv dest) = ?t + hval g ?sv dest"
      by (intro int32_id) (auto simp: INF_DIST_def)
    have ok: "pos_ok (destCityID e)"
      using idr v(3) sm(4) unfolding ids_in_range_def idAt_def numCities_def
      by (metis nth_mem)
    define fs' where "fs' = (fScore_arr s)[?sv := ?t + hval g ?sv dest]"
    from astar_update [OF ginv idr adm inv mid u e True, of fs'] obtain h' where
      h': "(if pos (aheap s) (destCityID e) = -1
            then insertHeap (aheap s) (destCityID e) ?t (?t + hval g ?sv dest)
            else decreaseKey (aheap s) (destCityID e) ?t (?t + hval g ?sv dest)) = Inr h'"
      and inv': "ainv g src dest u es
                (s\<lparr>aparent_arr := (aparent_arr s)[?sv := int u],
                   gScore_arr := (gScore_arr s)[?sv := ?t],
                   fScore_arr := fs', aheap := h'\<rparr>)"
      and mid': "amid g dest u
                (s\<lparr>aparent_arr := (aparent_arr s)[?sv := int u],
                   gScore_arr := (gScore_arr s)[?sv := ?t],
                   fScore_arr := fs', aheap := h'\<rparr>)"
      and cl': "\<forall>x. closed_slot g ((gScore_arr s)[?sv := ?t]) h' x
                    = closed_slot g (gScore_arr s) (aheap s) x"
      by blast
    from Cons.IH [OF sub inv' mid'] obtain s' where
      s': "astarEdges g u dest es
             (s\<lparr>aparent_arr := (aparent_arr s)[?sv := int u],
                gScore_arr := (gScore_arr s)[?sv := ?t],
                fScore_arr := fs', aheap := h'\<rparr>) = Inr s'"
        "ainv g src dest u [] s'" "amid g dest u s'"
        "\<forall>x. closed_slot g (gScore_arr s') (aheap s') x
             = closed_slot g ((gScore_arr s)[?sv := ?t]) h' x"
      by auto
    have "astarEdges g u dest (e # es) s = Inr s'"
      using v(1,2) t True hv f ok h' s'(1)
      by (simp add: Let_def fs'_def)
    with s'(2,3,4) cl' show ?thesis by simp
  next
    case False
    then have "relaxed g (gScore_arr s) u e" by (simp add: relaxed_def)
    from astar_skip [OF inv this] have "ainv g src dest u es s" .
    from Cons.IH [OF sub this mid] False v t show ?thesis by (simp add: Let_def)
  qed
qed

lemma astar_lower_bound:
  fixes gs :: "int list"
  assumes ginv: "graph_inv g" and adm: "admissible g" and src: "src < numCities g" "gs ! src = 0"
    and rng: "\<And>y. y < numCities g \<Longrightarrow> gs ! y \<le> INF_DIST"
    and rel: "\<And>x e. C x \<Longrightarrow> e \<in> set (adjList (cities g ! x)) \<Longrightarrow> relaxed g gs x e"
    and status: "\<And>y. y < numCities g \<Longrightarrow> C y \<or> gs ! y = INF_DIST \<or> k \<le> gs ! y + hval g y dest"
    and w: "walk g (idAt g src) b w"
  shows "gs ! slotOf g b \<le> w \<or> k \<le> w + hval g (slotOf g b) dest"
  using w
proof (induction rule: walk.induct)
  case walk_start
  from slotOf_idAt [OF ginv src(1)] have "slotOf g (idAt g src) = src" by (simp add: slotOf_def)
  with src(2) show ?case by simp
next
  case (walk_step b w c e)
  let ?x = "slotOf g b" and ?v = "slotOf g (destCityID e)"
  from city_at_slot [OF ginv walk_step.hyps(2)] walk_step.hyps(3)
  have x: "?x < numCities g" "cities g ! ?x = c" by auto
  with walk_step.hyps(4) have e: "e \<in> set (adjList (cities g ! ?x))" by simp
  note tgt = edge_target [OF ginv x(1) e]
  note sm = slotOf_member [OF tgt(1)]
  have cons: "hval g ?x dest \<le> distance e + hval g ?v dest"
    using hval_consistent [OF adm x(1) e sm(3)] sm(4) by (simp add: idAt_def)
  show ?case
  proof (cases "k \<le> w + hval g ?x dest")
    case True
    with cons show ?thesis by simp
  next
    case False
    with walk_step.IH have le: "gs ! ?x \<le> w" by simp
    from status [OF x(1)] show ?thesis
    proof (elim disjE)
      assume "C ?x"
      from rel [OF this e] le show ?thesis by (simp add: relaxed_def)
    next
      assume "gs ! ?x = INF_DIST"
      with le rng [OF sm(3)] tgt(2) show ?thesis by simp
    next
      assume "k \<le> gs ! ?x + hval g ?x dest"
      with le False show ?thesis by simp
    qed
  qed
qed

lemma ainv_dpost:
  assumes ginv: "graph_inv g" and adm: "admissible g" and dest: "dest < numCities g"
    and inv: "ainv g src dest u [] s"
    and bound: "\<And>y. open_slot g (aheap s) y \<Longrightarrow> k \<le> gScore_arr s ! y + hval g y dest"
    and k: "gScore_arr s ! dest \<le> k"
  shows "dpost g src dest (gScore_arr s) (aparent_arr s)"
proof -
  let ?gs = "gScore_arr s"
  from inv have src: "src < numCities g" "?gs ! src = 0"
    and rng: "\<And>y. y < numCities g \<Longrightarrow> ?gs ! y \<le> INF_DIST"
    and rel: "\<And>x e. closed_slot g ?gs (aheap s) x \<Longrightarrow> e \<in> set (adjList (cities g ! x)) \<Longrightarrow>
                relaxed g ?gs x e"
    unfolding ainv_def by auto
  have status: "closed_slot g ?gs (aheap s) y \<or> ?gs ! y = INF_DIST \<or> k \<le> ?gs ! y + hval g y dest"
    if "y < numCities g" for y
  proof (cases "idAt g y \<in> node_cityID ` resident (aheap s)")
    case True
    with that have "open_slot g (aheap s) y" by (simp add: open_slot_def)
    from bound [OF this] show ?thesis by simp
  next
    case False
    with that rng [OF that] show ?thesis by (auto simp: closed_slot_def)
  qed
  have "?gs ! dest \<le> w" if "walk g (idAt g src) (idAt g dest) w" for w
  proof -
    from astar_lower_bound [OF ginv adm src rng rel status that]
    have "?gs ! slotOf g (idAt g dest) \<le> w \<or> k \<le> w + hval g (slotOf g (idAt g dest)) dest"
      by blast
    moreover from slotOf_idAt [OF ginv dest] have "slotOf g (idAt g dest) = dest"
      by (simp add: slotOf_def)
    ultimately show ?thesis using k by (auto simp: hval_self)
  qed
  with inv show ?thesis unfolding dpost_def ainv_def by blast
qed

lemma astarLoop_correct:
  assumes ginv: "graph_inv g" and idr: "ids_in_range g" and fit: "weights_fit g"
    and cfit: "coords_fit g" and adm: "admissible g" and dest: "dest < numCities g"
  shows "ainv g src dest u0 [] s \<Longrightarrow>
           \<exists>s'. astarLoop g (int dest) s = Some (Inr s') \<and>
                dpost g src dest (gScore_arr s') (aparent_arr s')"
proof (induction "card {v. v < numCities g \<and> \<not> closed_slot g (gScore_arr s) (aheap s) v}"
         arbitrary: s u0 rule: less_induct)
  case less
  note inv = less.prems
  let ?n = "numCities g"
  let ?gs = "gScore_arr s" and ?h = "aheap s"
  let ?F = "\<lambda>x. ?gs ! x + hval g x dest"
  from inv have hinv: "heap_inv ?h"
    and km: "\<And>m. m \<in> resident ?h \<Longrightarrow> \<exists>x < ?n. node_cityID m = idAt g x \<and>
                fScore m = ?F x \<and> ?gs ! x < INF_DIST"
    and fr: "\<And>x. x < ?n \<Longrightarrow> ?gs ! x = INF_DIST \<Longrightarrow>
                idAt g x \<notin> node_cityID ` resident ?h \<and> pos ?h (idAt g x) = -1"
    and rel: "\<And>x e'. closed_slot g ?gs ?h x \<Longrightarrow> e' \<in> set (adjList (cities g ! x)) \<Longrightarrow>
                relaxed g ?gs x e'"
    and mono: "\<And>x y. closed_slot g ?gs ?h x \<Longrightarrow> open_slot g ?h y \<Longrightarrow> ?F x \<le> ?F y"
    unfolding ainv_def by auto
  from hinv have wf: "heap_wf ?h" and pc: "pos_consistent ?h" by (simp_all add: heap_inv_def)
  show ?case
  proof (cases "heap_size ?h = 0")
    case True
    then have "resident ?h = {}" by (simp add: resident_def)
    then have none: "\<not> open_slot g ?h y" for y by (simp add: open_slot_def)
    from ainv_dpost [OF ginv adm dest inv, of "?gs ! dest"] none
    have "dpost g src dest ?gs (aparent_arr s)" by auto
    moreover from True have "astarLoop g (int dest) s = Some (Inr s)"
      by (subst astarLoop.simps) (simp add: isHeapEmpty_def)
    ultimately show ?thesis by simp
  next
    case False
    then have ne: "0 < heap_size ?h" by simp
    let ?m = "nodes ?h ! 0"
    from extractMin_correct [OF hinv ne] obtain h' where
      ex: "extractMin ?h = Inr (?m, h')" and hinv': "heap_inv h'"
      and cap': "heap_capacity h' = heap_capacity ?h"
      and mres: "?m \<in> resident ?h"
      and mmin: "\<And>k. k \<in> resident ?h \<Longrightarrow> fScore ?m \<le> fScore k"
      and res': "resident h' = resident ?h - {?m}"
      and frame': "\<And>c. c \<notin> node_cityID ` resident ?h \<Longrightarrow> pos h' c = pos ?h c"
      by blast
    from km [OF mres] obtain x where x: "x < ?n" "node_cityID ?m = idAt g x" "fScore ?m = ?F x"
      "?gs ! x < INF_DIST" by blast
    from slotOf_idAt [OF ginv x(1)] x(2) have fx: "findCityIndex g (node_cityID ?m) = int x"
      by simp
    have "idAt g x \<in> node_cityID ` resident ?h" using mres x(2) by (metis imageI)
    then have ox: "open_slot g ?h x" using x(1) by (simp add: open_slot_def)
    then have ncx: "\<not> closed_slot g ?gs ?h x" by (simp add: open_slot_def closed_slot_def)
    have minx: "?F x \<le> ?F y" if "open_slot g ?h y" for y
    proof -
      from that obtain k where k: "k \<in> resident ?h" "node_cityID k = idAt g y" "y < ?n"
        by (auto simp: open_slot_def)
      from km [OF k(1)] obtain z where z: "z < ?n" "node_cityID k = idAt g z" "fScore k = ?F z"
        by blast
      from idAt_inj [OF ginv z(1) k(3)] z(2) k(2) have "z = y" by simp
      with mmin [OF k(1)] x(3) z(3) show ?thesis by simp
    qed
    show ?thesis
    proof (cases "x = dest")
      case True
      from ainv_dpost [OF ginv adm dest inv, of "?F dest"] minx True
      have "dpost g src dest ?gs (aparent_arr s)" by (auto simp: hval_self)
      moreover from ne ex fx True have "astarLoop g (int dest) s = Some (Inr (s\<lparr>aheap := h'\<rparr>))"
        by (subst astarLoop.simps) (simp add: isHeapEmpty_def)
      ultimately show ?thesis by simp
    next
      case xd: False
      define s0 where "s0 = s\<lparr>aheap := h'\<rparr>"
      have f0: "gScore_arr s0 = ?gs" "aparent_arr s0 = aparent_arr s" "aheap s0 = h'"
        by (simp_all add: s0_def)
      have ids': "node_cityID ` resident h' = node_cityID ` resident ?h - {idAt g x}"
      proof -
        have "node_cityID k \<noteq> node_cityID ?m" if "k \<in> resident ?h" "k \<noteq> ?m" for k
          using resident_distinct [OF wf pc that(1) mres] that(2) by auto
        with res' mres x(2) show ?thesis by auto
      qed
      have open': "open_slot g h' y \<longleftrightarrow> open_slot g ?h y \<and> y \<noteq> x" for y
        using idAt_inj [OF ginv _ x(1), of y] by (auto simp: open_slot_def ids')
      have closed': "closed_slot g ?gs h' y \<longleftrightarrow> closed_slot g ?gs ?h y \<or> y = x" for y
        using idAt_inj [OF ginv _ x(1), of y] x(1,4) by (auto simp: closed_slot_def ids')
      have inv0: "ainv g src dest x (adjList (cities g ! x)) s0"
        unfolding ainv_def f0
      proof (intro conjI allI impI ballI)
        show "heap_inv h'" by (rule hinv')
        show "heap_capacity h' = ?n" using cap' inv by (simp add: ainv_def)
      next
        fix k assume "k \<in> resident h'"
        with res' have "k \<in> resident ?h" by simp
        from km [OF this]
        show "\<exists>z < ?n. node_cityID k = idAt g z \<and> fScore k = ?F z \<and> ?gs ! z < INF_DIST" .
      next
        fix y assume y: "y < ?n" "?gs ! y = INF_DIST"
        from fr [OF this] have a: "idAt g y \<notin> node_cityID ` resident ?h" "pos ?h (idAt g y) = -1"
          by simp_all
        from a(1) show "idAt g y \<notin> node_cityID ` resident h'" by (simp add: ids')
        from frame' [OF a(1)] a(2) show "pos h' (idAt g y) = -1" by simp
      next
        fix y e' assume cy: "closed_slot g ?gs h' y" and e': "e' \<in> set (adjList (cities g ! y))"
        show "(y = x \<and> e' \<in> set (adjList (cities g ! x))) \<or> relaxed g ?gs y e'"
        proof (cases "y = x")
          case True
          with e' show ?thesis by simp
        next
          case False
          with cy closed' have "closed_slot g ?gs ?h y" by simp
          from rel [OF this e'] show ?thesis by simp
        qed
      next
        fix a b assume ab: "closed_slot g ?gs h' a \<and> open_slot g h' b"
        then have b: "open_slot g ?h b" by (simp add: open')
        from ab have "closed_slot g ?gs ?h a \<or> a = x" by (simp add: closed')
        then show "?F a \<le> ?F b"
        proof
          assume "closed_slot g ?gs ?h a"
          from mono [OF this b] show ?thesis .
        next
          assume "a = x"
          with minx [OF b] show ?thesis by simp
        qed
      qed (use inv in \<open>auto simp: ainv_def\<close>)
      have mid0: "amid g dest x s0"
        unfolding amid_def f0
      proof (intro conjI allI impI)
        show "closed_slot g ?gs h' x" by (simp add: closed')
      next
        fix a assume "closed_slot g ?gs h' a"
        then have "closed_slot g ?gs ?h a \<or> a = x" by (simp add: closed')
        then show "?F a \<le> ?F x"
        proof
          assume "closed_slot g ?gs ?h a"
          from mono [OF this ox] show ?thesis .
        qed simp
      next
        fix b assume "open_slot g h' b"
        then have "open_slot g ?h b" by (simp add: open')
        from minx [OF this] show "?F x \<le> ?F b" .
      qed
      from astarEdges_correct [OF ginv idr fit cfit adm x(1) dest subset_refl inv0 mid0]
      obtain s1 where
        s1: "astarEdges g x dest (adjList (cities g ! x)) s0 = Inr s1" "ainv g src dest x [] s1"
        and cl1: "\<And>y. closed_slot g (gScore_arr s1) (aheap s1) y = closed_slot g ?gs h' y"
        by (auto simp: f0)
      have eq: "{v. v < ?n \<and> \<not> closed_slot g (gScore_arr s1) (aheap s1) v}
              = {v. v < ?n \<and> \<not> closed_slot g ?gs ?h v} - {x}"
        by (auto simp: cl1 closed')
      have fin: "finite {v. v < ?n \<and> \<not> closed_slot g ?gs ?h v}" by simp
      have mem: "x \<in> {v. v < ?n \<and> \<not> closed_slot g ?gs ?h v}" using x(1) ncx by simp
      from card_Diff1_less [OF fin mem]
      have "card {v. v < ?n \<and> \<not> closed_slot g (gScore_arr s1) (aheap s1) v}
              < card {v. v < ?n \<and> \<not> closed_slot g ?gs ?h v}"
        by (simp only: eq)
      from less.hyps [OF this s1(2)] obtain s' where
        s': "astarLoop g (int dest) s1 = Some (Inr s')"
          "dpost g src dest (gScore_arr s') (aparent_arr s')"
        by blast
      from ne ex fx xd s1(1) s'(1) have "astarLoop g (int dest) s = Some (Inr s')"
        by (subst astarLoop.simps) (simp add: isHeapEmpty_def s0_def)
      with s'(2) show ?thesis by simp
    qed
  qed
qed

lemma astar_init:
  assumes ginv: "graph_inv g" and idr: "ids_in_range g"
    and src: "src < numCities g" and dest: "dest < numCities g"
  shows "\<exists>h. insertHeap (createMinHeap (numCities g)) (idAt g src) 0 (hval g src dest) = Inr h \<and>
             ainv g src dest 0 []
               \<lparr>gScore_arr = (replicate (numCities g) INF_DIST)[src := 0],
                fScore_arr = fs, aparent_arr = replicate (numCities g) (-1), aheap = h\<rparr>"
proof -
  let ?n = "numCities g"
  let ?gs = "(replicate ?n INF_DIST)[src := 0]"
  let ?new = "\<lparr>node_cityID = idAt g src, node_distance = 0, fScore = hval g src dest\<rparr>"
  have ok: "pos_ok (idAt g src)"
    using idr src unfolding ids_in_range_def idAt_def numCities_def by (metis nth_mem)
  have room: "heap_size (createMinHeap ?n) < heap_capacity (createMinHeap ?n)"
    using src by (simp add: createMinHeap_inv)
  have fresh: "idAt g src \<notin> node_cityID ` resident (createMinHeap ?n)"
    by (simp add: createMinHeap_inv)
  have pos0: "pos (createMinHeap ?n) c = -1" for c by (simp add: createMinHeap_def)
  from insertHeap_correct [OF createMinHeap_inv(1) room ok fresh, of 0 "hval g src dest"]
  obtain h where
    h0: "insertHeap (createMinHeap ?n) (idAt g src) 0 (hval g src dest) = Inr h" "heap_inv h"
      "heap_capacity h = heap_capacity (createMinHeap ?n)"
      "resident h = insert ?new (resident (createMinHeap ?n))"
      "\<forall>c. c \<notin> node_cityID ` resident (createMinHeap ?n) \<and> c \<noteq> idAt g src \<longrightarrow>
           pos h c = pos (createMinHeap ?n) c"
    by blast
  then have h: "insertHeap (createMinHeap ?n) (idAt g src) 0 (hval g src dest) = Inr h"
      "heap_inv h" "heap_capacity h = ?n" "resident h = {?new}"
      "\<And>c. c \<noteq> idAt g src \<Longrightarrow> pos h c = -1"
    by (simp_all add: createMinHeap_inv pos0)
  have gsv: "?gs ! v = (if v = src then 0 else INF_DIST)" if "v < ?n" for v
    using that src by (simp add: nth_list_update)
  have ne: "idAt g v \<noteq> idAt g src" if "v < ?n" "v \<noteq> src" for v
    using idAt_inj [OF ginv that(1) src] that(2) by auto
  have nocl: "\<not> closed_slot g ?gs h x" for x
  proof
    assume "closed_slot g ?gs h x"
    then have x: "x < ?n" "?gs ! x < INF_DIST" "idAt g x \<notin> node_cityID ` resident h"
      by (simp_all add: closed_slot_def)
    from gsv [OF x(1)] x(2) have "x = src" by (simp split: if_splits)
    with x(3) h(4) show False by simp
  qed
  define s0 where "s0 = \<lparr>gScore_arr = ?gs, fScore_arr = fs,
                            aparent_arr = replicate ?n (-1), aheap = h\<rparr>"
  have f0: "gScore_arr s0 = ?gs" "aparent_arr s0 = replicate ?n (-1)" "aheap s0 = h"
    by (simp_all add: s0_def)
  have "ainv g src dest 0 [] s0"
    unfolding ainv_def f0
  proof (intro conjI allI impI ballI)
    show "length ?gs = ?n" by simp
    show "length (replicate ?n (-1::int)) = ?n" by simp
    show "heap_inv h" by (rule h(2))
    show "heap_capacity h = ?n" by (rule h(3))
    show "src < ?n" by (rule src)
    show "?gs ! src = 0" using gsv [OF src] by simp
  next
    fix m assume "m \<in> resident h"
    with h(4) have "m = ?new" by simp
    with gsv [OF src] have "node_cityID m = idAt g src \<and>
             fScore m = ?gs ! src + hval g src dest \<and> ?gs ! src < INF_DIST"
      by (simp add: INF_DIST_def)
    with src show "\<exists>v < ?n. node_cityID m = idAt g v \<and>
             fScore m = ?gs ! v + hval g v dest \<and> ?gs ! v < INF_DIST" by blast
  next
    fix v assume v: "v < ?n" and "?gs ! v < INF_DIST"
    with gsv [OF v] have "v = src" by (auto split: if_splits)
    moreover have "idAt g src \<in> cityIDs g" using src by (simp add: idAt_def cityIDs_def numCities_def)
    ultimately show "walk g (idAt g src) (idAt g v) (?gs ! v)"
      using gsv [OF v] by (simp add: walk_start)
  next
    fix v assume v: "v < ?n" and inf: "?gs ! v = INF_DIST"
    have vs: "v \<noteq> src"
    proof
      assume "v = src"
      with inf have "?gs ! src = INF_DIST" by simp
      moreover have "?gs ! src = 0" using src by simp
      ultimately show False by (simp add: INF_DIST_def)
    qed
    from ne [OF v vs] h(4) show "idAt g v \<notin> node_cityID ` resident h" by simp
    from h(5) [OF ne [OF v vs]] show "pos h (idAt g v) = -1" by simp
  next
    fix v assume v: "v < ?n"
    from gsv [OF v] show "0 \<le> ?gs ! v" by (simp add: INF_DIST_def)
    from gsv [OF v] show "?gs ! v \<le> INF_DIST" by (simp add: INF_DIST_def)
    from v show "replicate ?n (-1::int) ! v = -1 \<or>
          (0 \<le> replicate ?n (-1::int) ! v \<and> replicate ?n (-1::int) ! v < int ?n \<and>
           ?gs ! nat (replicate ?n (-1::int) ! v) < ?gs ! v)" by simp
  next
    fix x e assume "closed_slot g ?gs h x"
    with nocl show "(x = 0 \<and> e \<in> set []) \<or> relaxed g ?gs x e" by simp
  next
    fix x y assume "closed_slot g ?gs h x \<and> open_slot g h y"
    with nocl show "?gs ! x + hval g x dest \<le> ?gs ! y + hval g y dest" by simp
  qed
  with h(1) show ?thesis unfolding s0_def by blast
qed


lemma astar_result:
  assumes ginv: "graph_inv g" and idr: "ids_in_range g" and fit: "weights_fit g"
    and cfit: "coords_fit g" and adm: "admissible g"
    and s: "s \<in> cityIDs g" and d: "d \<in> cityIDs g"
  shows "\<exists>ds ps. dpost g (slotOf g s) (slotOf g d) ds ps \<and>
           snd (astar g s d) =
             (if ds ! slotOf g d = INF_DIST then Some (Inr (createPathResult (numCities g)))
              else (case tracePath g ps (int (slotOf g d))
                           ((createPathResult (numCities g))\<lparr>totalDistance := ds ! slotOf g d\<rparr>) of
                      None \<Rightarrow> None
                    | Some (Inl e) \<Rightarrow> Some (Inl e)
                    | Some (Inr pr) \<Rightarrow> Some (Inr (reversePath pr))))"
proof -
  let ?n = "numCities g"
  define src where "src = slotOf g s"
  define dest where "dest = slotOf g d"
  from slotOf_member [OF s] have si: "findCityIndex g s = int src" "src < ?n" "idAt g src = s"
    by (simp_all add: src_def slotOf_def)
  from slotOf_member [OF d] have di: "findCityIndex g d = int dest" "dest < ?n"
    by (simp_all add: dest_def slotOf_def)
  let ?gs = "(replicate ?n INF_DIST)[src := 0]"
  let ?fs = "(replicate ?n INF_DIST)[src := hval g src dest]"
  have hv: "heuristic g src dest = Inr (hval g src dest)"
    by (rule heuristic_val [OF cfit si(2) di(2)])
  from astar_init [OF ginv idr si(2) di(2), of ?fs] obtain h where
    h: "insertHeap (createMinHeap ?n) (idAt g src) 0 (hval g src dest) = Inr h"
    and inv: "ainv g src dest 0 []
               \<lparr>gScore_arr = ?gs, fScore_arr = ?fs,
                aparent_arr = replicate ?n (-1), aheap = h\<rparr>"
    by blast
  from astarLoop_correct [OF ginv idr fit cfit adm di(2) inv] obtain s' where
    s': "astarLoop g (int dest)
           \<lparr>gScore_arr = ?gs, fScore_arr = ?fs,
            aparent_arr = replicate ?n (-1), aheap = h\<rparr> = Some (Inr s')"
    and post: "dpost g src dest (gScore_arr s') (aparent_arr s')"
    by blast
  have g0: "?gs ! src = 0" "?fs ! src = hval g src dest" using si(2) by simp_all
  have "snd (astar g s d) =
          (if gScore_arr s' ! dest = INF_DIST then Some (Inr (createPathResult ?n))
           else (case tracePath g (aparent_arr s') (int dest)
                        ((createPathResult ?n)\<lparr>totalDistance := gScore_arr s' ! dest\<rparr>) of
                   None \<Rightarrow> None
                 | Some (Inl e) \<Rightarrow> Some (Inl e)
                 | Some (Inr pr) \<Rightarrow> Some (Inr (reversePath pr))))"
    using h s' by (simp add: astar_def si(1) di(1) hv g0 Let_def idAt_def)
  with post show ?thesis unfolding src_def dest_def by blast
qed

lemma astar_optimal:
  assumes "graph_inv g" and "ids_in_range g" and "weights_fit g"
    and "coords_fit g" and "admissible g"
    and s: "s \<in> cityIDs g" and d: "d \<in> cityIDs g"
  shows "\<exists>pr. snd (astar g s d) = Some (Inr pr) \<and>
           (if \<exists>w. walk g s d w \<and> w < INF_DIST
            then path pr \<noteq> [] \<and> walk g s d (totalDistance pr) \<and>
                 (\<forall>w. walk g s d w \<longrightarrow> totalDistance pr \<le> w)
            else path pr = [] \<and> totalDistance pr = 0)"
proof -
  from astar_result [OF assms] obtain ds ps where
    post: "dpost g (slotOf g s) (slotOf g d) ds ps"
    and res: "snd (astar g s d) =
             (if ds ! slotOf g d = INF_DIST then Some (Inr (createPathResult (numCities g)))
              else (case tracePath g ps (int (slotOf g d))
                           ((createPathResult (numCities g))\<lparr>totalDistance := ds ! slotOf g d\<rparr>) of
                      None \<Rightarrow> None
                    | Some (Inl e) \<Rightarrow> Some (Inl e)
                    | Some (Inr pr) \<Rightarrow> Some (Inr (reversePath pr))))"
    by blast
  from slotOf_member [OF s] slotOf_member [OF d]
  show ?thesis by (intro dpost_result [OF post _ _ _ _ res]) simp_all
qed

section \<open>The position table without the heap order\<close>

text \<open>
  The sift loops keep the node array and the position table consistent whatever the
  scores are; only the order of the scores needs more.
\<close>

lemma bubbleUp_struct:
  "heap_wf h \<Longrightarrow> pos_consistent h \<Longrightarrow> k < heap_size h \<or> k = 0 \<Longrightarrow>
     \<exists>h'. bubbleUp h k = Inr h' \<and> heap_wf h' \<and> pos_consistent h' \<and> same_content h h'"
proof (induction h k rule: bubbleUp.induct)
  case (1 h i)
  let ?p = "(i - 1) div 2"
  note wf = "1.prems"(1) and pc = "1.prems"(2) and i = "1.prems"(3)
  show ?case
  proof (cases "0 < i \<and> fScore (nodes h ! i) < fScore (nodes h ! ?p)")
    case False
    then have "bubbleUp h i = Inr h" by (auto simp: bubbleUp.simps [of h i])
    with wf pc same_content_refl show ?thesis by blast
  next
    case True
    with i have i': "i < heap_size h" by auto
    from True have i0: "0 < i" by simp
    then have "?p < i" by simp
    with i' have p: "?p < heap_size h" by simp
    from swapPos_ok [OF wf pc i' p] obtain h1 where
      h1: "swapPos h i ?p = Inr h1" and wf1: "heap_wf h1" and pc1: "pos_consistent h1"
      and sc1: "same_content h h1"
      by blast
    from sc1 p have p1: "?p < heap_size h1 \<or> ?p = 0" by (simp add: same_content_def)
    from "1.IH" [OF True h1 wf1 pc1 p1] obtain h' where
      h': "bubbleUp h1 ?p = Inr h'" "heap_wf h'" "pos_consistent h'" "same_content h1 h'"
      by blast
    from True h1 h'(1) have "bubbleUp h i = Inr h'" by (simp add: bubbleUp.simps [of h i])
    with h'(2,3) same_content_trans [OF sc1 h'(4)] show ?thesis by blast
  qed
qed

lemma minHeapify_struct:
  "heap_wf h \<Longrightarrow> pos_consistent h \<Longrightarrow>
     \<exists>h'. minHeapify h k = Inr h' \<and> heap_wf h' \<and> pos_consistent h' \<and> same_content h h'"
proof (induction h k rule: minHeapify.induct)
  case (1 h k)
  let ?s = "smallestOf h k"
  note wf = "1.prems"(1) and pc = "1.prems"(2)
  show ?case
  proof (cases "?s = k")
    case True
    then have "minHeapify h k = Inr h" by (simp add: minHeapify.simps [of h k])
    with wf pc same_content_refl show ?thesis by blast
  next
    case False
    note so = smallestOf_other [OF False]
    from so(2,3) have "k < ?s" by auto
    with so(1) have k: "k < heap_size h" by simp
    from swapPos_ok [OF wf pc so(1) k] obtain h1 where
      h1: "swapPos h ?s k = Inr h1" and wf1: "heap_wf h1" and pc1: "pos_consistent h1"
      and sc1: "same_content h h1"
      by blast
    from "1.IH" [OF refl False h1 wf1 pc1] obtain h' where
      h': "minHeapify h1 ?s = Inr h'" "heap_wf h'" "pos_consistent h'" "same_content h1 h'"
      by blast
    from False h1 h'(1) have "minHeapify h k = Inr h'" by (simp add: minHeapify.simps [of h k])
    with h'(2,3) same_content_trans [OF sc1 h'(4)] show ?thesis by blast
  qed
qed

lemma insertHeap_struct:
  assumes wf: "heap_wf h" and pc: "pos_consistent h"
    and room: "heap_size h < heap_capacity h" and ok: "pos_ok cid"
    and fresh: "cid \<notin> node_cityID ` resident h"
  shows "\<exists>h'. insertHeap h cid d f = Inr h' \<and> heap_wf h' \<and> pos_consistent h' \<and>
           heap_size h' = heap_size h + 1 \<and> heap_capacity h' = heap_capacity h \<and>
           node_cityID ` resident h' = insert cid (node_cityID ` resident h) \<and>
           (\<forall>c. c \<notin> node_cityID ` resident h \<and> c \<noteq> cid \<longrightarrow> pos h' c = pos h c)"
proof -
  let ?n = "heap_size h"
  let ?new = "\<lparr>node_cityID = cid, node_distance = d, fScore = f\<rparr>"
  define h0 where "h0 = h\<lparr>heap_size := ?n + 1, nodes := (nodes h)[?n := ?new],
                           pos := (pos h)(cid := int ?n)\<rparr>"
  from wf room have len: "?n < length (nodes h)" by (simp add: heap_wf_def)
  have eq: "insertHeap h cid d f = bubbleUp h0 ?n"
    using room ok by (simp add: insertHeap_def h0_def Let_def)
  have wf0: "heap_wf h0" using wf room by (simp add: heap_wf_def h0_def)
  have nth0: "nodes h0 ! i = (if i = ?n then ?new else nodes h ! i)" if "i \<le> ?n" for i
    using that len by (simp add: h0_def nth_list_update)
  have pc0: "pos_consistent h0"
    unfolding pos_consistent_def
  proof (intro allI impI)
    fix i assume "i < heap_size h0"
    then have i: "i \<le> ?n" by (simp add: h0_def)
    show "pos_ok (node_cityID (nodes h0 ! i)) \<and> pos h0 (node_cityID (nodes h0 ! i)) = int i"
    proof (cases "i = ?n")
      case True
      with nth0 [OF i] ok show ?thesis by (simp add: h0_def)
    next
      case False
      with i have lt: "i < ?n" by simp
      from resident_nth [OF wf lt] fresh have "node_cityID (nodes h ! i) \<noteq> cid" by auto
      with pc lt nth0 [OF i] False show ?thesis by (simp add: pos_consistent_def h0_def)
    qed
  qed
  have res0: "resident h0 = insert ?new (resident h)"
  proof -
    have "take (?n + 1) ((nodes h)[?n := ?new]) = take ?n (nodes h) @ [?new]"
      using len by (simp add: take_Suc_conv_app_nth)
    then show ?thesis by (simp add: resident_def h0_def)
  qed
  have n0: "?n < heap_size h0 \<or> ?n = 0" by (simp add: h0_def)
  from bubbleUp_struct [OF wf0 pc0 n0] obtain h' where
    h': "bubbleUp h0 ?n = Inr h'" "heap_wf h'" "pos_consistent h'" "same_content h0 h'" by blast
  from h'(4) res0 have "heap_size h' = ?n + 1" "heap_capacity h' = heap_capacity h"
    "node_cityID ` resident h' = insert cid (node_cityID ` resident h)"
    "\<forall>c. c \<notin> node_cityID ` resident h \<and> c \<noteq> cid \<longrightarrow> pos h' c = pos h c"
    by (auto simp: same_content_def h0_def)
  with eq h'(1,2,3) show ?thesis by auto
qed

lemma decreaseKey_struct:
  assumes wf: "heap_wf h" and pc: "pos_consistent h" and ok: "pos_ok cid"
    and stale: "cid \<notin> node_cityID ` resident h \<Longrightarrow>
                  pos h cid = -1 \<or> (pos h cid = 0 \<and> 0 < heap_capacity h)"
  shows "\<exists>h'. decreaseKey h cid d f = Inr h' \<and> heap_wf h' \<and> pos_consistent h' \<and>
           heap_size h' = heap_size h \<and> heap_capacity h' = heap_capacity h \<and>
           node_cityID ` resident h' = node_cityID ` resident h \<and>
           (\<forall>c. c \<notin> node_cityID ` resident h \<longrightarrow> pos h' c = pos h c)"
proof (cases "pos h cid = -1")
  case True
  from decreaseKey_absent [OF ok True] wf pc show ?thesis by simp
next
  case False
  define i where "i = nat (pos h cid)"
  have pi: "pos h cid = int i" and cap: "i < heap_capacity h"
    and live: "i < heap_size h \<or> i = 0"
  proof -
    have "pos h cid = int i \<and> i < heap_capacity h \<and> (i < heap_size h \<or> i = 0)"
    proof (cases "cid \<in> node_cityID ` resident h")
      case True
      then obtain n where n: "n \<in> resident h" "node_cityID n = cid" by force
      from resident_pos [OF wf pc n(1)] n(2) wf show ?thesis
        by (simp add: i_def heap_wf_def)
    next
      case nres: False
      from stale [OF nres] False show ?thesis by (simp add: i_def)
    qed
    then show "pos h cid = int i" "i < heap_capacity h" "i < heap_size h \<or> i = 0" by simp_all
  qed
  let ?n' = "(nodes h ! i)\<lparr>node_distance := d, fScore := f\<rparr>"
  define h0 where "h0 = h\<lparr>nodes := (nodes h)[i := ?n']\<rparr>"
  from wf cap have len: "i < length (nodes h)" by (simp add: heap_wf_def)
  have eq: "decreaseKey h cid d f = bubbleUp h0 i"
    using ok cap by (simp add: decreaseKey_def Let_def h0_def pi)
  have wf0: "heap_wf h0" using wf by (simp add: heap_wf_def h0_def)
  have sz0: "heap_size h0 = heap_size h" by (simp add: h0_def)
  have id0: "node_cityID (nodes h0 ! j) = node_cityID (nodes h ! j)" for j
    using len by (simp add: h0_def nth_list_update)
  have pos0: "pos h0 = pos h" by (simp add: h0_def)
  have pc0: "pos_consistent h0"
    using pc by (simp add: pos_consistent_def id0 pos0 sz0)
  have ids0: "node_cityID ` resident h0 = node_cityID ` resident h"
  proof -
    have "c \<in> node_cityID ` resident h0 \<longleftrightarrow> c \<in> node_cityID ` resident h" for c
    proof -
      have "c \<in> node_cityID ` resident h0 \<longleftrightarrow> (\<exists>j < heap_size h. node_cityID (nodes h0 ! j) = c)"
        using resident_iff [OF wf0] sz0 by (auto simp: image_iff)
      also have "\<dots> \<longleftrightarrow> (\<exists>j < heap_size h. node_cityID (nodes h ! j) = c)"
        by (simp add: id0)
      also have "\<dots> \<longleftrightarrow> c \<in> node_cityID ` resident h"
        using resident_iff [OF wf] by (auto simp: image_iff)
      finally show ?thesis .
    qed
    then show ?thesis by blast
  qed
  from live have live0: "i < heap_size h0 \<or> i = 0" by (simp add: sz0)
  from bubbleUp_struct [OF wf0 pc0 live0] obtain h' where
    h': "bubbleUp h0 i = Inr h'" "heap_wf h'" "pos_consistent h'" "same_content h0 h'" by blast
  from h'(4) have "heap_size h' = heap_size h" "heap_capacity h' = heap_capacity h"
    "resident h' = resident h0"
    by (simp_all add: same_content_def sz0) (simp add: h0_def)
  moreover have "\<forall>c. c \<notin> node_cityID ` resident h \<longrightarrow> pos h' c = pos h c"
    using h'(4) ids0 pos0 by (simp add: same_content_def)
  ultimately show ?thesis using eq h'(1,2,3) ids0 by simp
qed

lemma extractMin_struct:
  assumes wf: "heap_wf h" and pc: "pos_consistent h" and ne: "0 < heap_size h"
  shows "\<exists>h'. extractMin h = Inr (nodes h ! 0, h') \<and> heap_wf h' \<and> pos_consistent h' \<and>
           heap_size h' = heap_size h - 1 \<and> heap_capacity h' = heap_capacity h \<and>
           nodes h ! 0 \<in> resident h \<and>
           resident h' = resident h - {nodes h ! 0} \<and>
           (\<forall>c. c \<notin> node_cityID ` resident h \<longrightarrow> pos h' c = pos h c) \<and>
           pos h' (node_cityID (nodes h ! 0)) = (if heap_size h = 1 then 0 else -1)"
proof -
  let ?n = "heap_size h"
  let ?root = "nodes h ! 0" and ?last = "nodes h ! (?n - 1)"
  let ?rid = "node_cityID ?root" and ?lid = "node_cityID ?last"
  from ne have l: "?n - 1 < ?n" by simp
  from wf ne have len: "0 < length (nodes h)" "?n \<le> length (nodes h)" by (simp_all add: heap_wf_def)
  define h0 where "h0 = h\<lparr>nodes := (nodes h)[0 := ?last],
                           pos := (pos h)(?rid := -1, ?lid := 0),
                           heap_size := ?n - 1\<rparr>"
  from pc ne l have ok: "pos_ok ?rid" "pos_ok ?lid" by (auto simp: pos_consistent_def)
  have eq: "extractMin h = (case minHeapify h0 0 of Inl e \<Rightarrow> Inl e | Inr h' \<Rightarrow> Inr (?root, h'))"
    using ne ok by (simp add: extractMin_def isHeapEmpty_def Let_def h0_def)
  have rootmem: "?root \<in> resident h" by (rule resident_nth [OF wf ne])
  have wf0: "heap_wf h0" using wf by (auto simp: heap_wf_def h0_def)
  have sz0: "heap_size h0 = ?n - 1" by (simp add: h0_def)
  have nth0: "nodes h0 ! i = (if i = 0 then ?last else nodes h ! i)" for i
    using len by (simp add: h0_def nth_list_update)
  have pos0: "pos h0 = (pos h)(?rid := -1, ?lid := 0)" by (simp add: h0_def)
  have frame0: "\<forall>c. c \<notin> node_cityID ` resident h \<longrightarrow> pos h0 c = pos h c"
    using rootmem resident_nth [OF wf l] by (auto simp: pos0)
  have pc0: "pos_consistent h0"
    unfolding pos_consistent_def sz0
  proof (intro allI impI)
    fix i assume i: "i < ?n - 1"
    then have i': "i < ?n" by simp
    show "pos_ok (node_cityID (nodes h0 ! i)) \<and> pos h0 (node_cityID (nodes h0 ! i)) = int i"
    proof (cases "i = 0")
      case True
      with ok show ?thesis by (simp add: nth0 pos0)
    next
      case False
      from pos_consistent_inj [OF pc i' ne] False have "node_cityID (nodes h ! i) \<noteq> ?rid" by auto
      moreover from pos_consistent_inj [OF pc i' l] i have "node_cityID (nodes h ! i) \<noteq> ?lid" by auto
      ultimately show ?thesis using pc i' False by (simp add: nth0 pos0 pos_consistent_def)
    qed
  qed
  have res0: "resident h0 = resident h - {?root}"
  proof -
    have "m \<in> resident h0 \<longleftrightarrow> m \<in> resident h \<and> m \<noteq> ?root" for m
    proof
      assume "m \<in> resident h0"
      then obtain i where i: "i < ?n - 1" "nodes h0 ! i = m"
        using resident_iff [OF wf0] sz0 by auto
      show "m \<in> resident h \<and> m \<noteq> ?root"
      proof (cases "i = 0")
        case True
        with i have m: "m = ?last" and n2: "0 < ?n - 1" by (simp_all add: nth0)
        from pos_consistent_inj [OF pc l ne] n2 have "?last \<noteq> ?root" by auto
        with m resident_nth [OF wf l] show ?thesis by simp
      next
        case False
        with i have m: "m = nodes h ! i" and i': "i < ?n" by (simp_all add: nth0)
        from pos_consistent_inj [OF pc i' ne] False have "nodes h ! i \<noteq> ?root" by auto
        with m resident_nth [OF wf i'] show ?thesis by simp
      qed
    next
      assume a: "m \<in> resident h \<and> m \<noteq> ?root"
      then obtain i where i: "i < ?n" "nodes h ! i = m" using resident_iff [OF wf] by auto
      with a have i0: "i \<noteq> 0" by (cases "i = 0") auto
      show "m \<in> resident h0"
      proof (cases "i = ?n - 1")
        case True
        with i i0 have k: "0 < heap_size h0" "nodes h0 ! 0 = m" by (simp_all add: nth0 sz0)
        from resident_nth [OF wf0 k(1)] k(2) show ?thesis by simp
      next
        case False
        with i i0 have k: "i < heap_size h0" "nodes h0 ! i = m" by (simp_all add: nth0 sz0)
        from resident_nth [OF wf0 k(1)] k(2) show ?thesis by simp
      qed
    qed
    then show ?thesis by auto
  qed
  have rid0: "pos h0 ?rid = (if ?n = 1 then 0 else -1)"
  proof (cases "?n = 1")
    case True
    then show ?thesis by (simp add: pos0)
  next
    case False
    with ne have "0 \<noteq> ?n - 1" by simp
    with pos_consistent_inj [OF pc ne l] have "?rid \<noteq> ?lid" by auto
    with False show ?thesis by (simp add: pos0)
  qed
  from minHeapify_struct [OF wf0 pc0] obtain h' where
    h': "minHeapify h0 0 = Inr h'" "heap_wf h'" "pos_consistent h'" "same_content h0 h'" by blast
  have ridnot: "?rid \<notin> node_cityID ` resident h0"
  proof
    assume "?rid \<in> node_cityID ` resident h0"
    then obtain m where "m \<in> resident h0" "node_cityID m = ?rid" by force
    with res0 have m: "m \<in> resident h" "m \<noteq> ?root" "node_cityID m = ?rid" by simp_all
    from resident_distinct [OF wf pc m(1) rootmem m(3)] m(2) show False by simp
  qed
  from h'(4) have "heap_size h' = ?n - 1" "heap_capacity h' = heap_capacity h"
    "resident h' = resident h - {?root}"
    by (simp_all add: same_content_def sz0 res0) (simp add: h0_def)
  moreover have "\<forall>c. c \<notin> node_cityID ` resident h \<longrightarrow> pos h' c = pos h c"
  proof (intro allI impI)
    fix c assume c: "c \<notin> node_cityID ` resident h"
    then have "c \<notin> node_cityID ` resident h0" using res0 by auto
    with h'(4) have "pos h' c = pos h0 c" by (simp add: same_content_def)
    with frame0 c show "pos h' c = pos h c" by simp
  qed
  moreover have "pos h' ?rid = (if ?n = 1 then 0 else -1)"
    using h'(4) ridnot rid0 by (simp add: same_content_def)
  ultimately show ?thesis using eq h'(1,2,3) rootmem by simp
qed

text \<open>
  What the position table keeps when nothing is known about the order of the scores: the
  entry of every resident city is its slot, and the entry of a city that is not resident
  is -1 or, after \<open>extractMin\<close> has removed it as the last node, 0.
\<close>

definition pos_sane :: "minheap \<Rightarrow> bool" where
  "pos_sane h \<longleftrightarrow> heap_wf h \<and> pos_consistent h \<and>
     (\<forall>c. c \<notin> node_cityID ` resident h \<longrightarrow>
          pos h c = -1 \<or> (pos h c = 0 \<and> 0 < heap_capacity h))"

lemma createMinHeap_sane: "pos_sane (createMinHeap n)"
  using createMinHeap_inv(1) [of n] by (simp add: pos_sane_def heap_inv_def createMinHeap_def)

lemma absent_fresh:
  assumes "heap_wf h" and "pos_consistent h" and "pos h cid = -1"
  shows "cid \<notin> node_cityID ` resident h"
proof
  assume "cid \<in> node_cityID ` resident h"
  then obtain n where n: "n \<in> resident h" "node_cityID n = cid" by force
  from resident_pos(2) [OF assms(1,2) n(1)] n(2) assms(3) show False by simp
qed

lemma insertHeap_sane:
  assumes sane: "pos_sane h" and ok: "pos_ok cid"
    and fresh: "cid \<notin> node_cityID ` resident h"
    and room: "heap_size h < heap_capacity h"
  shows "\<exists>h'. insertHeap h cid d f = Inr h' \<and> pos_sane h' \<and>
           heap_size h' = heap_size h + 1 \<and> heap_capacity h' = heap_capacity h \<and>
           node_cityID ` resident h' = insert cid (node_cityID ` resident h)"
proof -
  from sane have wf: "heap_wf h" and pc: "pos_consistent h"
    and st: "\<And>c. c \<notin> node_cityID ` resident h \<Longrightarrow>
                pos h c = -1 \<or> (pos h c = 0 \<and> 0 < heap_capacity h)"
    by (simp_all add: pos_sane_def)
  from insertHeap_struct [OF wf pc room ok fresh, of d f]
  obtain h' where h': "insertHeap h cid d f = Inr h'" "heap_wf h'" "pos_consistent h'"
    "heap_size h' = heap_size h + 1" "heap_capacity h' = heap_capacity h"
    "node_cityID ` resident h' = insert cid (node_cityID ` resident h)"
    "\<And>c. c \<notin> node_cityID ` resident h \<Longrightarrow> c \<noteq> cid \<Longrightarrow> pos h' c = pos h c"
    by blast
  have "pos_sane h'"
    unfolding pos_sane_def
  proof (intro conjI allI impI)
    fix c assume "c \<notin> node_cityID ` resident h'"
    with h'(6) have c: "c \<notin> node_cityID ` resident h" "c \<noteq> cid" by auto
    from h'(7) [OF c] st [OF c(1)] h'(5)
    show "pos h' c = -1 \<or> (pos h' c = 0 \<and> 0 < heap_capacity h')" by simp
  qed (rule h'(2), rule h'(3))
  with h'(1,4,5,6) show ?thesis by blast
qed

lemma decreaseKey_sane:
  assumes sane: "pos_sane h" and ok: "pos_ok cid"
  shows "\<exists>h'. decreaseKey h cid d f = Inr h' \<and> pos_sane h' \<and>
           heap_size h' = heap_size h \<and> heap_capacity h' = heap_capacity h \<and>
           node_cityID ` resident h' = node_cityID ` resident h"
proof -
  from sane have wf: "heap_wf h" and pc: "pos_consistent h"
    and st: "\<And>c. c \<notin> node_cityID ` resident h \<Longrightarrow>
                pos h c = -1 \<or> (pos h c = 0 \<and> 0 < heap_capacity h)"
    by (simp_all add: pos_sane_def)
  from decreaseKey_struct [OF wf pc ok st, of d f]
  obtain h' where h': "decreaseKey h cid d f = Inr h'" "heap_wf h'" "pos_consistent h'"
    "heap_size h' = heap_size h" "heap_capacity h' = heap_capacity h"
    "node_cityID ` resident h' = node_cityID ` resident h"
    "\<And>c. c \<notin> node_cityID ` resident h \<Longrightarrow> pos h' c = pos h c"
    by blast
  have "pos_sane h'"
    unfolding pos_sane_def
  proof (intro conjI allI impI)
    fix c assume "c \<notin> node_cityID ` resident h'"
    with h'(6) have c: "c \<notin> node_cityID ` resident h" by simp
    from h'(7) [OF c] st [OF c] h'(5)
    show "pos h' c = -1 \<or> (pos h' c = 0 \<and> 0 < heap_capacity h')" by simp
  qed (rule h'(2), rule h'(3))
  with h'(1,4,5,6) show ?thesis by blast
qed

lemma extractMin_sane:
  assumes sane: "pos_sane h" and ne: "0 < heap_size h"
  shows "\<exists>h'. extractMin h = Inr (nodes h ! 0, h') \<and> pos_sane h' \<and>
           heap_size h' = heap_size h - 1 \<and> heap_capacity h' = heap_capacity h \<and>
           node_cityID (nodes h ! 0) \<in> node_cityID ` resident h \<and>
           node_cityID ` resident h' \<subseteq> node_cityID ` resident h"
proof -
  from sane have wf: "heap_wf h" and pc: "pos_consistent h"
    and st: "\<And>c. c \<notin> node_cityID ` resident h \<Longrightarrow>
                pos h c = -1 \<or> (pos h c = 0 \<and> 0 < heap_capacity h)"
    by (simp_all add: pos_sane_def)
  from extractMin_struct [OF wf pc ne]
  obtain h' where h': "extractMin h = Inr (nodes h ! 0, h')" "heap_wf h'" "pos_consistent h'"
    "heap_size h' = heap_size h - 1" "heap_capacity h' = heap_capacity h"
    "nodes h ! 0 \<in> resident h" "resident h' = resident h - {nodes h ! 0}"
    "\<And>c. c \<notin> node_cityID ` resident h \<Longrightarrow> pos h' c = pos h c"
    "pos h' (node_cityID (nodes h ! 0)) = (if heap_size h = 1 then 0 else -1)"
    by blast
  from wf ne have cap: "0 < heap_capacity h" by (simp add: heap_wf_def)
  have "pos_sane h'"
    unfolding pos_sane_def
  proof (intro conjI allI impI)
    fix c assume c': "c \<notin> node_cityID ` resident h'"
    show "pos h' c = -1 \<or> (pos h' c = 0 \<and> 0 < heap_capacity h')"
    proof (cases "c = node_cityID (nodes h ! 0)")
      case True
      with h'(9) h'(5) cap show ?thesis by simp
    next
      case False
      have c: "c \<notin> node_cityID ` resident h"
      proof
        assume "c \<in> node_cityID ` resident h"
        then obtain m where m: "m \<in> resident h" "node_cityID m = c" by force
        with False have "m \<noteq> nodes h ! 0" by auto
        with m(1) h'(7) have "m \<in> resident h'" by simp
        with m(2) c' show False by force
      qed
      from h'(8) [OF c] st [OF c] h'(5) show ?thesis by simp
    qed
  qed (rule h'(2), rule h'(3))
  moreover have "node_cityID (nodes h ! 0) \<in> node_cityID ` resident h"
    using h'(6) by (rule imageI)
  moreover have "node_cityID ` resident h' \<subseteq> node_cityID ` resident h"
    using h'(7) by auto
  ultimately show ?thesis using h'(1,4,5) by blast
qed

section \<open>A* without an admissible heuristic\<close>

text \<open>
  Every update lowers one entry of \<open>gScore\<close> by at least 1 and adds at most one node to
  the heap, and every iteration removes one node: twice the sum of the entries plus the
  heap size decreases, so the loop ends.
\<close>

definition wsum :: "int list \<Rightarrow> nat" where
  "wsum gs = sum_list (map nat gs)"

lemma wsum_update:
  assumes "v < length gs" and "0 \<le> t" and "t < gs ! v"
  shows "wsum (gs[v := t]) < wsum gs"
proof -
  let ?xs = "map nat gs"
  from assms(1) have v: "v < length ?xs" by simp
  have "?xs ! v \<in> set ?xs" using v by (rule nth_mem)
  then have le: "?xs ! v \<le> sum_list ?xs" by (simp add: member_le_sum_list)
  have lt: "nat t < ?xs ! v" using assms by simp
  have "map nat (gs[v := t]) = ?xs[v := nat t]" by (simp add: map_update)
  then have "wsum (gs[v := t]) = sum_list ?xs + nat t - ?xs ! v"
    using v by (simp add: wsum_def sum_list_update)
  with le lt show ?thesis by (simp add: wsum_def)
qed

text \<open>
  The part of the invariant of the search that does not depend on the heuristic: the
  heap holds only cities with a distance below INF, every such distance is the weight of
  a directed path from the source, and the parent of a city has a smaller distance.
\<close>

definition winv :: "graph \<Rightarrow> nat \<Rightarrow> astate \<Rightarrow> bool" where
  "winv g src s \<longleftrightarrow>
     length (gScore_arr s) = numCities g \<and> length (aparent_arr s) = numCities g \<and>
     pos_sane (aheap s) \<and> heap_capacity (aheap s) = numCities g \<and>
     (\<forall>c \<in> node_cityID ` resident (aheap s). \<exists>v < numCities g.
          c = idAt g v \<and> gScore_arr s ! v < INF_DIST) \<and>
     (\<forall>v < numCities g. 0 \<le> gScore_arr s ! v \<and> gScore_arr s ! v \<le> INF_DIST) \<and>
     (\<forall>v < numCities g. gScore_arr s ! v < INF_DIST \<longrightarrow>
          walk g (idAt g src) (idAt g v) (gScore_arr s ! v)) \<and>
     (\<forall>v < numCities g. aparent_arr s ! v = -1 \<or>
          (0 \<le> aparent_arr s ! v \<and> aparent_arr s ! v < int (numCities g) \<and>
           gScore_arr s ! nat (aparent_arr s ! v) < gScore_arr s ! v))"

lemma astarEdges_weak:
  assumes ginv: "graph_inv g" and fit: "weights_fit g"
    and cfit: "coords_fit g" and dest: "dest < numCities g" and u: "u < numCities g"
    and k: "k < INF_DIST"
    and tok: "\<forall>e \<in> set es0. k + distance e < INF_DIST \<longrightarrow> pos_ok (destCityID e)"
    and sub0: "set es0 \<subseteq> set (adjList (cities g ! u))"
  shows "winv g src s \<Longrightarrow> gScore_arr s ! u = k \<Longrightarrow> set es \<subseteq> set es0 \<Longrightarrow>
     \<exists>s'. astarEdges g u dest es s = Inr s' \<and> winv g src s' \<and>
          gScore_arr s' ! u = k \<and>
          2 * wsum (gScore_arr s') + heap_size (aheap s')
            \<le> 2 * wsum (gScore_arr s) + heap_size (aheap s)"
proof (induction es arbitrary: s)
  case Nil
  then show ?case by simp
next
  case (Cons e es)
  note inv = Cons.prems(1) and geq = Cons.prems(2)
  from geq k have gu: "gScore_arr s ! u < INF_DIST" by simp
  from Cons.prems(3) have e0: "e \<in> set es0" and es: "set es \<subseteq> set es0" by simp_all
  from e0 sub0 have e: "e \<in> set (adjList (cities g ! u))" by blast
  let ?n = "numCities g"
  let ?gs = "gScore_arr s" and ?ps = "aparent_arr s" and ?h = "aheap s"
  let ?cid = "destCityID e"
  define v where "v = slotOf g ?cid"
  from edge_target [OF ginv u e] have tgt: "?cid \<in> cityIDs g" and w0: "0 < distance e" .
  from slotOf_member [OF tgt] have fv: "findCityIndex g ?cid = int v"
    and v: "v < ?n" and idv: "idAt g v = ?cid"
    by (simp_all add: v_def slotOf_def)
  from inv have len: "length ?gs = ?n" "length ?ps = ?n" and sane: "pos_sane ?h"
    and cap: "heap_capacity ?h = ?n"
    by (simp_all add: winv_def)
  from inv have ids: "\<And>c. c \<in> node_cityID ` resident ?h \<Longrightarrow>
        \<exists>x < ?n. c = idAt g x \<and> ?gs ! x < INF_DIST"
    unfolding winv_def by blast
  from inv have rng: "\<And>x. x < ?n \<Longrightarrow> 0 \<le> ?gs ! x \<and> ?gs ! x \<le> INF_DIST"
    unfolding winv_def by blast
  from inv have wk: "\<And>x. x < ?n \<Longrightarrow> ?gs ! x < INF_DIST \<Longrightarrow>
        walk g (idAt g src) (idAt g x) (?gs ! x)"
    unfolding winv_def by blast
  from inv have par: "\<And>x. x < ?n \<Longrightarrow> ?ps ! x = -1 \<or>
        (0 \<le> ?ps ! x \<and> ?ps ! x < int ?n \<and> ?gs ! nat (?ps ! x) < ?gs ! x)"
    unfolding winv_def by blast
  define t where "t = ?gs ! u + distance e"
  from rng [OF u] have gu0: "0 \<le> ?gs ! u" by simp
  from edge_fit [OF fit u e] gu gu0 w0 have tb: "- 2147483648 \<le> t" "t < 2147483648"
    by (simp_all add: t_def)
  then have t32: "int32 (?gs ! u + distance e) = t" by (simp add: t_def int32_id)
  from gu0 w0 have t0: "0 < t" and tu: "?gs ! u < t" by (simp_all add: t_def)
  show ?case
  proof (cases "t < ?gs ! v")
    case False
    then have "astarEdges g u dest (e # es) s = astarEdges g u dest es s"
      by (simp add: fv t32 Let_def)
    with Cons.IH [OF inv geq es] show ?thesis by simp
  next
    case True
    define f where "f = int32 (t + hval g v dest)"
    have hv: "heuristic g v dest = Inr (hval g v dest)"
      by (rule heuristic_val [OF cfit v dest])
    from True tu have vu: "v \<noteq> u" by auto
    from True rng [OF v] have tI: "t < INF_DIST" by simp
    with geq have "k + distance e < INF_DIST" by (simp add: t_def)
    with tok e0 have ok: "pos_ok ?cid" by blast
    have "\<exists>h'. (if pos ?h ?cid = -1 then insertHeap ?h ?cid t f
                 else decreaseKey ?h ?cid t f) = Inr h' \<and>
            pos_sane h' \<and> heap_capacity h' = ?n \<and>
            node_cityID ` resident h' \<subseteq> insert ?cid (node_cityID ` resident ?h) \<and>
            heap_size h' \<le> heap_size ?h + 1"
    proof (cases "pos ?h ?cid = -1")
      case absent: True
      from sane have wf: "heap_wf ?h" and pc: "pos_consistent ?h" by (simp_all add: pos_sane_def)
      from absent_fresh [OF wf pc absent]
      have fresh': "?cid \<notin> node_cityID ` resident ?h" .
      with idv have fresh: "idAt g v \<notin> node_cityID ` resident ?h" by simp
      have sub: "node_cityID ` resident ?h \<subseteq> idAt g ` {..<?n}"
      proof
        fix c assume "c \<in> node_cityID ` resident ?h"
        from ids [OF this] show "c \<in> idAt g ` {..<?n}" by blast
      qed
      from heap_room [OF ginv wf pc sub v fresh] cap
      have room: "heap_size ?h < heap_capacity ?h" by simp
      from insertHeap_sane [OF sane ok fresh' room, of t f] obtain h' where
        "insertHeap ?h ?cid t f = Inr h'" "pos_sane h'" "heap_size h' = heap_size ?h + 1"
        "heap_capacity h' = heap_capacity ?h"
        "node_cityID ` resident h' = insert ?cid (node_cityID ` resident ?h)"
        by blast
      with absent cap show ?thesis by simp
    next
      case present: False
      from decreaseKey_sane [OF sane ok, of t f] obtain h' where
        "decreaseKey ?h ?cid t f = Inr h'" "pos_sane h'" "heap_size h' = heap_size ?h"
        "heap_capacity h' = heap_capacity ?h"
        "node_cityID ` resident h' = node_cityID ` resident ?h"
        by blast
      with present cap show ?thesis by auto
    qed
    then obtain h' where
      op: "(if pos ?h ?cid = -1 then insertHeap ?h ?cid t f
           else decreaseKey ?h ?cid t f) = Inr h'"
      and sane': "pos_sane h'" and cap': "heap_capacity h' = ?n"
      and ids': "node_cityID ` resident h' \<subseteq> insert ?cid (node_cityID ` resident ?h)"
      and sz': "heap_size h' \<le> heap_size ?h + 1"
      by blast
    define s1 where "s1 = s\<lparr>aparent_arr := ?ps[v := int u], gScore_arr := ?gs[v := t],
                              fScore_arr := (fScore_arr s)[v := f], aheap := h'\<rparr>"
    have eq: "astarEdges g u dest (e # es) s = astarEdges g u dest es s1"
    proof (cases "pos ?h ?cid = -1")
      case absent: True
      with op have "insertHeap ?h ?cid t (int32 (t + hval g v dest)) = Inr h'"
        by (simp add: f_def)
      with True absent show ?thesis by (simp add: fv t32 Let_def hv ok s1_def f_def)
    next
      case present: False
      with op have "decreaseKey ?h ?cid t (int32 (t + hval g v dest)) = Inr h'"
        by (simp add: f_def)
      with True present show ?thesis by (simp add: fv t32 Let_def hv ok s1_def f_def)
    qed
    have g1: "gScore_arr s1 ! x = (if x = v then t else ?gs ! x)" if "x < ?n" for x
      using that len v by (simp add: s1_def nth_list_update)
    have p1: "aparent_arr s1 ! x = (if x = v then int u else ?ps ! x)" if "x < ?n" for x
      using that len v by (simp add: s1_def nth_list_update)
    have h1: "aheap s1 = h'" by (simp add: s1_def)
    have le1: "gScore_arr s1 ! x \<le> ?gs ! x" if "x < ?n" for x
      using g1 [OF that] True by simp
    have inv1: "winv g src s1"
      unfolding winv_def h1
    proof (intro conjI allI impI ballI)
      show "length (gScore_arr s1) = ?n" "length (aparent_arr s1) = ?n"
        using len by (simp_all add: s1_def)
      show "pos_sane h'" by (rule sane')
      show "heap_capacity h' = ?n" by (rule cap')
    next
      fix c assume "c \<in> node_cityID ` resident h'"
      with ids' have "c = ?cid \<or> c \<in> node_cityID ` resident ?h" by auto
      then show "\<exists>x < ?n. c = idAt g x \<and> gScore_arr s1 ! x < INF_DIST"
      proof
        assume "c = ?cid"
        with idv g1 [OF v] tI v show ?thesis by auto
      next
        assume "c \<in> node_cityID ` resident ?h"
        from ids [OF this] obtain x where x: "x < ?n" "c = idAt g x" "?gs ! x < INF_DIST"
          by blast
        from le1 [OF x(1)] x(3) have "gScore_arr s1 ! x < INF_DIST" by simp
        with x(1,2) show ?thesis by blast
      qed
    next
      fix x assume x: "x < ?n"
      from g1 [OF x] rng [OF x] t0 tI
      show "0 \<le> gScore_arr s1 ! x" "gScore_arr s1 ! x \<le> INF_DIST" by simp_all
    next
      fix x assume x: "x < ?n" and lt: "gScore_arr s1 ! x < INF_DIST"
      show "walk g (idAt g src) (idAt g x) (gScore_arr s1 ! x)"
      proof (cases "x = v")
        case True
        have cu: "cities g ! u \<in> set (cities g)" using u by (simp add: numCities_def)
        have "walk g (idAt g src) (destCityID e) (?gs ! u + distance e)"
          by (rule walk_step [OF wk [OF u gu] cu _ e]) (simp add: idAt_def)
        with True idv g1 [OF v] show ?thesis by (simp add: t_def)
      next
        case False
        with g1 [OF x] lt wk [OF x] show ?thesis by simp
      qed
    next
      fix x assume x: "x < ?n"
      show "aparent_arr s1 ! x = -1 \<or>
            (0 \<le> aparent_arr s1 ! x \<and> aparent_arr s1 ! x < int ?n \<and>
             gScore_arr s1 ! nat (aparent_arr s1 ! x) < gScore_arr s1 ! x)"
      proof (cases "x = v")
        case True
        have "gScore_arr s1 ! u < gScore_arr s1 ! v"
          using g1 [OF u] g1 [OF v] vu tu by simp
        with True p1 [OF x] u show ?thesis by simp
      next
        case False
        with p1 [OF x] g1 [OF x] have px: "aparent_arr s1 ! x = ?ps ! x"
          and gx: "gScore_arr s1 ! x = ?gs ! x" by simp_all
        from par [OF x] show ?thesis
        proof
          assume "?ps ! x = -1"
          with px show ?thesis by simp
        next
          assume a: "0 \<le> ?ps ! x \<and> ?ps ! x < int ?n \<and> ?gs ! nat (?ps ! x) < ?gs ! x"
          then have "nat (?ps ! x) < ?n" by linarith
          from le1 [OF this] a have "gScore_arr s1 ! nat (?ps ! x) < ?gs ! x" by simp
          with a px gx show ?thesis by simp
        qed
      qed
    qed
    have gu1: "gScore_arr s1 ! u = k" using g1 [OF u] vu geq by simp
    from rng [OF v] have "wsum (?gs[v := t]) < wsum ?gs"
      using v len t0 True by (intro wsum_update) simp_all
    with sz' have m1: "2 * wsum (gScore_arr s1) + heap_size (aheap s1)
                        < 2 * wsum ?gs + heap_size ?h"
      by (simp add: s1_def)
    from Cons.IH [OF inv1 gu1 es] obtain s' where
      s': "astarEdges g u dest es s1 = Inr s'" "winv g src s'"
        "2 * wsum (gScore_arr s') + heap_size (aheap s')
           \<le> 2 * wsum (gScore_arr s1) + heap_size (aheap s1)"
        "gScore_arr s' ! u = k"
      by blast
    from s'(3) m1 have "2 * wsum (gScore_arr s') + heap_size (aheap s')
           \<le> 2 * wsum ?gs + heap_size ?h" by simp
    with eq s'(1,2,4) show ?thesis by simp
  qed
qed

lemma astarLoop_weak:
  assumes ginv: "graph_inv g" and fit: "weights_fit g"
    and cfit: "coords_fit g" and dest: "dest < numCities g"
    and rok: "\<forall>c w. walk g (idAt g src) c w \<longrightarrow> w < INF_DIST \<longrightarrow> pos_ok c"
  shows "winv g src s \<Longrightarrow>
     \<exists>s'. astarLoop g (int dest) s = Some (Inr s') \<and> winv g src s'"
proof (induction "2 * wsum (gScore_arr s) + heap_size (aheap s)" arbitrary: s rule: less_induct)
  case less
  note inv = less.prems
  let ?n = "numCities g"
  let ?h = "aheap s"
  show ?case
  proof (cases "heap_size ?h = 0")
    case True
    then have "astarLoop g (int dest) s = Some (Inr s)"
      by (simp add: astarLoop.simps [of g "int dest" s] isHeapEmpty_def)
    with inv show ?thesis by simp
  next
    case False
    then have ne: "0 < heap_size ?h" by simp
    from inv have sane: "pos_sane ?h" by (simp add: winv_def)
    from inv have ids: "\<And>c. c \<in> node_cityID ` resident ?h \<Longrightarrow>
        \<exists>x < ?n. c = idAt g x \<and> gScore_arr s ! x < INF_DIST"
      unfolding winv_def by blast
    let ?m = "nodes ?h ! 0"
    from extractMin_sane [OF sane ne] obtain h' where
      ex: "extractMin ?h = Inr (?m, h')" and sane': "pos_sane h'"
      and sz': "heap_size h' = heap_size ?h - 1" and cap': "heap_capacity h' = heap_capacity ?h"
      and mem: "node_cityID ?m \<in> node_cityID ` resident ?h"
      and sub: "node_cityID ` resident h' \<subseteq> node_cityID ` resident ?h"
      by blast
    from ids [OF mem] obtain u where u: "u < ?n" "node_cityID ?m = idAt g u"
      "gScore_arr s ! u < INF_DIST" by blast
    from slotOf_idAt [OF ginv u(1)] u(2) have fu: "findCityIndex g (node_cityID ?m) = int u"
      by simp
    define s1 where "s1 = s\<lparr>aheap := h'\<rparr>"
    have inv1: "winv g src s1"
    proof -
      have "\<forall>c \<in> node_cityID ` resident h'. \<exists>v < ?n.
              c = idAt g v \<and> gScore_arr s ! v < INF_DIST"
        using ids sub by blast
      with inv sane' cap' show ?thesis unfolding winv_def s1_def by simp
    qed
    have m1: "2 * wsum (gScore_arr s1) + heap_size (aheap s1)
                < 2 * wsum (gScore_arr s) + heap_size ?h"
      using sz' ne by (simp add: s1_def)
    show ?thesis
    proof (cases "u = dest")
      case True
      with False ex fu have "astarLoop g (int dest) s = Some (Inr s1)"
        by (simp add: astarLoop.simps [of g "int dest" s] isHeapEmpty_def s1_def)
      with inv1 show ?thesis by simp
    next
      case ud: False
      have gu1: "gScore_arr s1 ! u = gScore_arr s ! u" by (simp add: s1_def)
      from inv u(1,3) have wu: "walk g (idAt g src) (idAt g u) (gScore_arr s ! u)"
        unfolding winv_def by blast
      have cu: "cities g ! u \<in> set (cities g)" using u(1) by (simp add: numCities_def)
      have tok: "\<forall>e \<in> set (adjList (cities g ! u)).
                  gScore_arr s ! u + distance e < INF_DIST \<longrightarrow> pos_ok (destCityID e)"
      proof (intro ballI impI)
        fix e assume e: "e \<in> set (adjList (cities g ! u))"
          and lt: "gScore_arr s ! u + distance e < INF_DIST"
        have "walk g (idAt g src) (destCityID e) (gScore_arr s ! u + distance e)"
          by (rule walk_step [OF wu cu _ e]) (simp add: idAt_def)
        with rok lt show "pos_ok (destCityID e)" by blast
      qed
      from astarEdges_weak [OF ginv fit cfit dest u(1) u(3) tok subset_refl inv1 gu1 subset_refl]
      obtain s2 where s2: "astarEdges g u dest (adjList (cities g ! u)) s1 = Inr s2"
        "winv g src s2"
        "2 * wsum (gScore_arr s2) + heap_size (aheap s2)
           \<le> 2 * wsum (gScore_arr s1) + heap_size (aheap s1)"
        by blast
      from s2(3) m1 have "2 * wsum (gScore_arr s2) + heap_size (aheap s2)
           < 2 * wsum (gScore_arr s) + heap_size ?h" by simp
      from less.hyps [OF this s2(2)] obtain s' where
        s': "astarLoop g (int dest) s2 = Some (Inr s')" "winv g src s'" by blast
      from False ex fu ud s2(1) have "astarLoop g (int dest) s = astarLoop g (int dest) s2"
        by (simp add: astarLoop.simps [of g "int dest" s] isHeapEmpty_def s1_def)
      with s' show ?thesis by simp
    qed
  qed
qed

lemma astar_init_weak:
  assumes ok: "pos_ok (idAt g src)" and src: "src < numCities g"
  shows "\<exists>h. insertHeap (createMinHeap (numCities g)) (idAt g src) 0 f0 = Inr h \<and>
           winv g src \<lparr>gScore_arr = (replicate (numCities g) INF_DIST)[src := 0],
                       fScore_arr = fs, aparent_arr = replicate (numCities g) (-1),
                       aheap = h\<rparr>"
proof -
  let ?n = "numCities g"
  let ?gs = "(replicate ?n INF_DIST)[src := 0]"
  have cs: "cities g ! src \<in> set (cities g)" using src by (simp add: numCities_def)
  from cs have mem: "idAt g src \<in> cityIDs g" by (simp add: idAt_def cityIDs_def)
  have absent: "idAt g src \<notin> node_cityID ` resident (createMinHeap ?n)"
    by (simp add: createMinHeap_inv)
  have room: "heap_size (createMinHeap ?n) < heap_capacity (createMinHeap ?n)"
    using src by (simp add: createMinHeap_inv)
  from insertHeap_sane [OF createMinHeap_sane ok absent room, of 0 f0] obtain h where
    h: "insertHeap (createMinHeap ?n) (idAt g src) 0 f0 = Inr h" "pos_sane h"
      "heap_capacity h = ?n" "node_cityID ` resident h = {idAt g src}"
    by (auto simp: createMinHeap_inv)
  have gsrc: "?gs ! src = 0" using src by simp
  have gother: "?gs ! x = INF_DIST" if "x < ?n" "x \<noteq> src" for x using that by simp
  have inf0: "(0::int) < INF_DIST" by (simp add: INF_DIST_def)
  have "winv g src \<lparr>gScore_arr = ?gs, fScore_arr = fs, aparent_arr = replicate ?n (-1),
                    aheap = h\<rparr>"
    unfolding winv_def astate.simps
  proof (intro conjI allI impI ballI)
    show "length ?gs = ?n" "length (replicate ?n (-1 :: int)) = ?n" by simp_all
    show "pos_sane h" by (rule h(2))
    show "heap_capacity h = ?n" by (rule h(3))
  next
    fix c assume "c \<in> node_cityID ` resident h"
    with h(4) have "c = idAt g src" by simp
    with src gsrc inf0 show "\<exists>v < ?n. c = idAt g v \<and> ?gs ! v < INF_DIST" by auto
  next
    fix x assume x: "x < ?n"
    show "0 \<le> ?gs ! x" "?gs ! x \<le> INF_DIST"
      using gsrc gother [OF x] inf0 by (cases "x = src"; simp)+
  next
    fix x assume x: "x < ?n" and lt: "?gs ! x < INF_DIST"
    have "x = src"
    proof (rule ccontr)
      assume "x \<noteq> src"
      from gother [OF x this] lt show False by simp
    qed
    with gsrc mem show "walk g (idAt g src) (idAt g x) (?gs ! x)"
      by (simp add: walk_start)
  next
    fix x assume "x < ?n"
    then show "replicate ?n (-1 :: int) ! x = -1 \<or>
        (0 \<le> replicate ?n (-1 :: int) ! x \<and> replicate ?n (-1 :: int) ! x < int ?n \<and>
         ?gs ! nat (replicate ?n (-1 :: int) ! x) < ?gs ! x)"
      by simp
  qed
  with h(1) show ?thesis by blast
qed

lemma walk_member:
  assumes "graph_inv g"
  shows "walk g s c w \<Longrightarrow> c \<in> cityIDs g"
proof (induction rule: walk.induct)
  case walk_start
  then show ?case .
next
  case (walk_step b w c e)
  with assms show ?case by (simp add: graph_inv_def)
qed

lemma reach_in_range:
  assumes "graph_inv g" and "ids_in_range g"
  shows "\<forall>c w. walk g s c w \<and> w < INF_DIST \<longrightarrow> pos_ok c"
proof (intro allI impI)
  fix c w assume "walk g s c w \<and> w < INF_DIST"
  then have "walk g s c w" by simp
  from walk_member [OF assms(1) this] assms(2) show "pos_ok c"
    by (auto simp: cityIDs_def ids_in_range_def)
qed

lemma astar_reach_total:
  assumes ginv: "graph_inv g" and fit: "weights_fit g"
    and cfit: "coords_fit g" and s: "s \<in> cityIDs g" and d: "d \<in> cityIDs g"
    and rok: "\<forall>c w. walk g s c w \<and> w < INF_DIST \<longrightarrow> pos_ok c"
  shows "\<exists>pr. snd (astar g s d) = Some (Inr pr) \<and>
           (path pr = [] \<and> totalDistance pr = 0 \<or>
            path pr \<noteq> [] \<and> walk g s d (totalDistance pr))"
proof -
  let ?n = "numCities g"
  define src where "src = slotOf g s"
  define dest where "dest = slotOf g d"
  from slotOf_member [OF s] have si: "findCityIndex g s = int src" "src < ?n" "idAt g src = s"
    by (simp_all add: src_def slotOf_def)
  from slotOf_member [OF d] have di: "findCityIndex g d = int dest" "dest < ?n" "idAt g dest = d"
    by (simp_all add: dest_def slotOf_def)
  let ?gs = "(replicate ?n INF_DIST)[src := 0]"
  let ?fs = "(replicate ?n INF_DIST)[src := hval g src dest]"
  have hv: "heuristic g src dest = Inr (hval g src dest)"
    by (rule heuristic_val [OF cfit si(2) di(2)])
  have inf0: "(0::int) < INF_DIST" by (simp add: INF_DIST_def)
  from rok walk_start [OF s] inf0 have "pos_ok s" by blast
  with si(3) have oks: "pos_ok (idAt g src)" by simp
  from rok si(3)
  have rok': "\<forall>c w. walk g (idAt g src) c w \<longrightarrow> w < INF_DIST \<longrightarrow> pos_ok c"
    by auto
  from astar_init_weak [OF oks si(2), of "hval g src dest" ?fs] obtain h where
    h: "insertHeap (createMinHeap ?n) (idAt g src) 0 (hval g src dest) = Inr h"
    and inv: "winv g src \<lparr>gScore_arr = ?gs, fScore_arr = ?fs,
                          aparent_arr = replicate ?n (-1), aheap = h\<rparr>"
    by blast
  from astarLoop_weak [OF ginv fit cfit di(2) rok' inv] obtain s' where
    s': "astarLoop g (int dest)
           \<lparr>gScore_arr = ?gs, fScore_arr = ?fs,
            aparent_arr = replicate ?n (-1), aheap = h\<rparr> = Some (Inr s')"
    and post: "winv g src s'"
    by blast
  let ?ds = "gScore_arr s'" and ?ps = "aparent_arr s'"
  from post have rng: "\<And>x. x < ?n \<Longrightarrow> 0 \<le> ?ds ! x"
    and wk: "\<And>x. x < ?n \<Longrightarrow> ?ds ! x < INF_DIST \<Longrightarrow> walk g (idAt g src) (idAt g x) (?ds ! x)"
    and chain: "\<And>x. x < ?n \<Longrightarrow> ?ps ! x = -1 \<or>
          (0 \<le> ?ps ! x \<and> ?ps ! x < int ?n \<and> ?ds ! nat (?ps ! x) < ?ds ! x)"
    unfolding winv_def by blast+
  from post di(2) have up: "?ds ! dest \<le> INF_DIST" unfolding winv_def by blast
  have g0: "?gs ! src = 0" "?fs ! src = hval g src dest" using si(2) by simp_all
  have res: "snd (astar g s d) =
          (if ?ds ! dest = INF_DIST then Some (Inr (createPathResult ?n))
           else (case tracePath g ?ps (int dest)
                        ((createPathResult ?n)\<lparr>totalDistance := ?ds ! dest\<rparr>) of
                   None \<Rightarrow> None
                 | Some (Inl e) \<Rightarrow> Some (Inl e)
                 | Some (Inr pr) \<Rightarrow> Some (Inr (reversePath pr))))"
    using h s' by (simp add: astar_def si(1) di(1) hv g0 Let_def idAt_def)
  show ?thesis
  proof (cases "?ds ! dest = INF_DIST")
    case True
    with res show ?thesis by (simp add: createPathResult_def)
  next
    case False
    with up have lt: "?ds ! dest < INF_DIST" by simp
    let ?pr0 = "(createPathResult ?n)\<lparr>totalDistance := ?ds ! dest\<rparr>"
    from di(2) have cap: "0 < pathCapacity ?pr0" "pathLength ?pr0 \<le> pathCapacity ?pr0"
      by (simp_all add: createPathResult_def pathLength_def)
    from tracePath_total [of g ?ps ?ds, OF chain rng di(2) cap] obtain pr' where
      pr': "tracePath g ?ps (int dest) ?pr0 = Some (Inr pr')"
        "totalDistance pr' = totalDistance ?pr0" "path pr' \<noteq> []"
      by blast
    from False res pr'(1) have "snd (astar g s d) = Some (Inr (reversePath pr'))" by simp
    moreover have "path (reversePath pr') \<noteq> []" "totalDistance (reversePath pr') = ?ds ! dest"
      using pr'(2,3) by (simp_all add: reversePath_def)
    moreover have "walk g s d (?ds ! dest)" using wk [OF di(2) lt] si(3) di(3) by simp
    ultimately show ?thesis by simp
  qed
qed


lemma astar_total:
  assumes ginv: "graph_inv g" and idr: "ids_in_range g" and fit: "weights_fit g"
    and cfit: "coords_fit g" and s: "s \<in> cityIDs g" and d: "d \<in> cityIDs g"
  shows "\<exists>pr. snd (astar g s d) = Some (Inr pr) \<and>
           (path pr = [] \<and> totalDistance pr = 0 \<or>
            path pr \<noteq> [] \<and> walk g s d (totalDistance pr))"
  by (rule astar_reach_total [OF ginv fit cfit s d reach_in_range [OF ginv idr]])

section \<open>Identifiers outside the position table\<close>















section \<open>Claims about the shortest-path queries\<close>

text \<open>
  C1 (as the code has it).  In a graph that satisfies the data-model invariants, with
  identifiers from 0 to 999 and weights that fit, \<open>dijkstra\<close> between two existing
  cities returns a path result.  If some directed path from \<open>s\<close> to \<open>d\<close> weighs less
  than 999999, the result is not empty and its total distance is the minimum weight of a
  directed path from \<open>s\<close> to \<open>d\<close>; otherwise the result is empty with distance 0.
\<close>

theorem dijkstra_shortest:
  assumes "graph_inv g" and "ids_in_range g" and "weights_fit g"
    and "s \<in> cityIDs g" and "d \<in> cityIDs g"
  shows "\<exists>pr. snd (dijkstra g s d) = Some (Inr pr) \<and>
           (if \<exists>w. walk g s d w \<and> w < INF_DIST
            then path pr \<noteq> [] \<and> walk g s d (totalDistance pr) \<and>
                 (\<forall>w. walk g s d w \<longrightarrow> totalDistance pr \<le> w)
            else path pr = [] \<and> totalDistance pr = 0)"
  using assms by (rule dijkstra_optimal)

definition farPair :: graph where
  "farPair =
     \<lparr>cities =
        [\<lparr>cityID = 1, cityName = ''A'', city_x = 0, city_y = 0,
          adjList = [\<lparr>destCityID = 2, distance = 999999\<rparr>]\<rparr>,
         \<lparr>cityID = 2, cityName = ''B'', city_x = 3, city_y = 4, adjList = []\<rparr>],
      capacity = 50\<rparr>"

lemma squareGraph_pre:
  "graph_inv squareGraph" "ids_in_range squareGraph" "weights_fit squareGraph"
  "1 \<in> cityIDs squareGraph" "4 \<in> cityIDs squareGraph"
  by (simp_all add: graph_inv_def ids_in_range_def weights_fit_def squareGraph_def cityIDs_def
        pos_ok_def POS_SIZE_def INF_DIST_def)

lemma squareGraph_walk: "walk squareGraph 1 4 7"
proof -
  have a: "walk squareGraph 1 1 0"
    by (rule walk_start) (simp add: squareGraph_pre)
  have "walk squareGraph 1 (destCityID \<lparr>destCityID = 2, distance = 3\<rparr>)
          (0 + distance \<lparr>destCityID = 2, distance = 3\<rparr>)"
    by (rule walk_step [OF a, where c = "cities squareGraph ! 0"])
       (simp_all add: squareGraph_def)
  then have b: "walk squareGraph 1 2 3" by simp
  have "walk squareGraph 1 (destCityID \<lparr>destCityID = 4, distance = 4\<rparr>)
          (3 + distance \<lparr>destCityID = 4, distance = 4\<rparr>)"
    by (rule walk_step [OF b, where c = "cities squareGraph ! 1"])
       (simp_all add: squareGraph_def)
  then show ?thesis by simp
qed

theorem dijkstra_shortest_witness:
  "graph_inv squareGraph \<and> ids_in_range squareGraph \<and> weights_fit squareGraph \<and>
   1 \<in> cityIDs squareGraph \<and> 4 \<in> cityIDs squareGraph \<and>
   snd (dijkstra squareGraph 1 4)
     = Some (Inr \<lparr>path = [1, 2, 4], totalDistance = 7, pathCapacity = 4\<rparr>) \<and>
   walk squareGraph 1 4 7 \<and> (7::int) < INF_DIST"
proof -
  have ev: "snd (dijkstra squareGraph 1 4)
     = Some (Inr \<lparr>path = [1, 2, 4], totalDistance = 7, pathCapacity = 4\<rparr>)"
    by code_simp
  have lt: "(7::int) < INF_DIST" by (simp add: INF_DIST_def)
  with squareGraph_walk have ex: "\<exists>w. walk squareGraph 1 4 w \<and> w < INF_DIST" by blast
  from dijkstra_shortest [OF squareGraph_pre] ex ev
  have "walk squareGraph 1 4 7" by auto
  with ev lt squareGraph_pre show ?thesis by simp
qed

text \<open>
  C1 as stated in the specification has no bound on the distance.  INF is the number
  999999: a road of that weight is no improvement over INF, so its target keeps the
  distance INF and the result is empty although a directed path exists.
\<close>

theorem dijkstra_sentinel_counterexample:
  "walk farPair 1 2 999999 \<and>
   snd (dijkstra farPair 1 2)
     = Some (Inr \<lparr>path = [], totalDistance = 0, pathCapacity = 2\<rparr>)"
proof
  have a: "walk farPair 1 1 0"
    by (rule walk_start) (simp add: farPair_def cityIDs_def)
  have "walk farPair 1 (destCityID \<lparr>destCityID = 2, distance = 999999\<rparr>)
          (0 + distance \<lparr>destCityID = 2, distance = 999999\<rparr>)"
    by (rule walk_step [OF a, where c = "cities farPair ! 0"]) (simp_all add: farPair_def)
  then show "walk farPair 1 2 999999" by simp
  show "snd (dijkstra farPair 1 2)
     = Some (Inr \<lparr>path = [], totalDistance = 0, pathCapacity = 2\<rparr>)"
    by code_simp
qed

lemma squareGraph_heur: "coords_fit squareGraph" "admissible squareGraph"
proof -
  show "coords_fit squareGraph"
    by (simp add: coords_fit_def numCities_def squareGraph_def sqdist_def All_less_Suc)
  have s9: "sqrt 9 = 3" and s16: "sqrt 16 = 4"
    using real_sqrt_abs [of 3] real_sqrt_abs [of 4] by simp_all
  show "admissible squareGraph"
    by (simp add: admissible_def numCities_def squareGraph_def sqdist_def All_less_Suc s9 s16)
qed

text \<open>
  C3 (as the code has it).  In a graph that satisfies the data-model invariants, with
  identifiers from 0 to 999, weights \<open>w\<close> with \<open>w + 999999 < 2^31\<close>, squared coordinate
  distances below \<open>2^31\<close>, and every road at least as long as the straight line between
  its two cities, \<open>astar\<close> and \<open>dijkstra\<close> between two existing cities both return a
  path result, and the two total distances are equal.
\<close>

theorem astar_same_distance:
  assumes "graph_inv g" and "ids_in_range g" and "weights_fit g"
    and "coords_fit g" and "admissible g"
    and s: "s \<in> cityIDs g" and d: "d \<in> cityIDs g"
  shows "\<exists>pa pd. snd (astar g s d) = Some (Inr pa) \<and> snd (dijkstra g s d) = Some (Inr pd) \<and>
           totalDistance pa = totalDistance pd"
proof -
  from astar_optimal [OF assms] obtain pa where
    pa: "snd (astar g s d) = Some (Inr pa)"
      "if \<exists>w. walk g s d w \<and> w < INF_DIST
       then path pa \<noteq> [] \<and> walk g s d (totalDistance pa) \<and>
            (\<forall>w. walk g s d w \<longrightarrow> totalDistance pa \<le> w)
       else path pa = [] \<and> totalDistance pa = 0"
    by blast
  from dijkstra_optimal [OF assms(1,2,3) s d] obtain pd where
    pd: "snd (dijkstra g s d) = Some (Inr pd)"
      "if \<exists>w. walk g s d w \<and> w < INF_DIST
       then path pd \<noteq> [] \<and> walk g s d (totalDistance pd) \<and>
            (\<forall>w. walk g s d w \<longrightarrow> totalDistance pd \<le> w)
       else path pd = [] \<and> totalDistance pd = 0"
    by blast
  have "totalDistance pa = totalDistance pd"
  proof (cases "\<exists>w. walk g s d w \<and> w < INF_DIST")
    case True
    with pa(2) pd(2) have "totalDistance pa \<le> totalDistance pd" "totalDistance pd \<le> totalDistance pa"
      by auto
    then show ?thesis by simp
  next
    case False
    with pa(2) pd(2) show ?thesis by simp
  qed
  with pa(1) pd(1) show ?thesis by blast
qed

theorem astar_same_distance_witness:
  "graph_inv squareGraph \<and> ids_in_range squareGraph \<and> weights_fit squareGraph \<and>
   coords_fit squareGraph \<and> admissible squareGraph \<and>
   1 \<in> cityIDs squareGraph \<and> 4 \<in> cityIDs squareGraph \<and>
   snd (astar squareGraph 1 4)
     = Some (Inr \<lparr>path = [1, 3, 4], totalDistance = 7, pathCapacity = 4\<rparr>) \<and>
   snd (dijkstra squareGraph 1 4)
     = Some (Inr \<lparr>path = [1, 2, 4], totalDistance = 7, pathCapacity = 4\<rparr>)"
proof -
  have ea: "snd (astar squareGraph 1 4)
     = Some (Inr \<lparr>path = [1, 3, 4], totalDistance = 7, pathCapacity = 4\<rparr>)"
    by code_simp
  from astar_same_distance [OF squareGraph_pre(1,2,3) squareGraph_heur squareGraph_pre(4,5)] ea
  have "\<exists>pd. snd (dijkstra squareGraph 1 4) = Some (Inr pd) \<and> totalDistance pd = 7"
    by auto
  moreover have "snd (dijkstra squareGraph 1 4)
     = Some (Inr \<lparr>path = [1, 2, 4], totalDistance = 7, pathCapacity = 4\<rparr>)"
    by code_simp
  ultimately show ?thesis using ea squareGraph_pre squareGraph_heur by simp
qed

definition ovfGraph :: graph where
  "ovfGraph =
     \<lparr>cities =
        [\<lparr>cityID = 1, cityName = ''A'', city_x = 0, city_y = 0,
          adjList = [\<lparr>destCityID = 2, distance = 5\<rparr>, \<lparr>destCityID = 3, distance = 6\<rparr>]\<rparr>,
         \<lparr>cityID = 2, cityName = ''B'', city_x = 0, city_y = 2,
          adjList = [\<lparr>destCityID = 3, distance = 2147483647\<rparr>]\<rparr>,
         \<lparr>cityID = 3, cityName = ''C'', city_x = 2, city_y = 0, adjList = []\<rparr>],
      capacity = 50\<rparr>"

lemma ovfGraph_admissible: "admissible ovfGraph"
proof -
  have s4: "sqrt 4 = 2" using real_sqrt_abs [of 2] by simp
  have s8: "sqrt 8 \<le> 2147483647"
    by (rule real_le_lsqrt) simp_all
  show ?thesis
    by (simp add: admissible_def numCities_def ovfGraph_def sqdist_def All_less_Suc s4 s8)
qed

text \<open>
  C3 as stated in the specification puts no bound on the weights.  Cities A(0,0),
  B(0,2), C(2,0) with the roads B-C (2147483647), A-C (6), A-B (5), added in that order,
  give \<open>ovfGraph\<close>, in which every road is at least as long as the straight line.
  \<open>dijkstra\<close> extracts B (distance 5) before C (distance 6); the sum 5 + 2147483647 does
  not fit an \<open>int\<close> and, wrapped, is below 6.  \<open>astar\<close> extracts C (score 6) before B
  (score 7) and stops.  The two total distances differ.
\<close>

theorem astar_overflow_counterexample:
  "loadGraph (createGraph 50)
     [(1, ''A'', 0, 0), (2, ''B'', 0, 2), (3, ''C'', 2, 0)]
     [(2, 3, 2147483647), (1, 3, 6), (1, 2, 5)] = Inr ovfGraph \<and>
   admissible ovfGraph \<and> 1 \<in> cityIDs ovfGraph \<and> 3 \<in> cityIDs ovfGraph \<and>
   snd (dijkstra ovfGraph 1 3)
     = Some (Inr \<lparr>path = [1, 2, 3], totalDistance = - 2147483644, pathCapacity = 3\<rparr>) \<and>
   snd (astar ovfGraph 1 3)
     = Some (Inr \<lparr>path = [1, 3], totalDistance = 6, pathCapacity = 3\<rparr>)"
proof (intro conjI)
  show "loadGraph (createGraph 50)
     [(1, ''A'', 0, 0), (2, ''B'', 0, 2), (3, ''C'', 2, 0)]
     [(2, 3, 2147483647), (1, 3, 6), (1, 2, 5)] = Inr ovfGraph"
    by code_simp
  show "admissible ovfGraph" by (rule ovfGraph_admissible)
  show "1 \<in> cityIDs ovfGraph" "3 \<in> cityIDs ovfGraph"
    by (simp_all add: cityIDs_def ovfGraph_def)
  show "snd (dijkstra ovfGraph 1 3)
     = Some (Inr \<lparr>path = [1, 2, 3], totalDistance = - 2147483644, pathCapacity = 3\<rparr>)"
    by code_simp
  show "snd (astar ovfGraph 1 3)
     = Some (Inr \<lparr>path = [1, 3], totalDistance = 6, pathCapacity = 3\<rparr>)"
    by code_simp
qed

lemma squareGraph_back: "walk squareGraph 4 b w \<Longrightarrow> b = 4"
proof (induction rule: walk.induct)
  case walk_start
  show ?case by simp
next
  case (walk_step b w c e)
  then show ?case by (auto simp: squareGraph_def)
qed


text \<open>
  C5 (as the code has it).  In a graph that satisfies the data-model invariants, with
  identifiers from 0 to 999, weights \<open>w\<close> with \<open>w + 999999 < 2^31\<close> and squared coordinate
  distances below \<open>2^31\<close>, if no directed path leads from the existing city \<open>s\<close> to the
  existing city \<open>d\<close>, then \<open>dijkstra\<close> and \<open>astar\<close> both return a path result, not an
  error, and its path length and total distance are zero.
\<close>

theorem unreachable_empty:
  assumes "graph_inv g" and "ids_in_range g" and "weights_fit g" and "coords_fit g"
    and "s \<in> cityIDs g" and "d \<in> cityIDs g"
    and nw: "\<not> (\<exists>w. walk g s d w)"
  shows "\<exists>pd pa.
           snd (dijkstra g s d) = Some (Inr pd) \<and> pathLength pd = 0 \<and> totalDistance pd = 0 \<and>
           snd (astar g s d) = Some (Inr pa) \<and> pathLength pa = 0 \<and> totalDistance pa = 0"
proof -
  from dijkstra_optimal [OF assms(1,2,3,5,6)] obtain pd where
    pd: "snd (dijkstra g s d) = Some (Inr pd)"
      "if \<exists>w. walk g s d w \<and> w < INF_DIST
       then path pd \<noteq> [] \<and> walk g s d (totalDistance pd) \<and>
            (\<forall>w. walk g s d w \<longrightarrow> totalDistance pd \<le> w)
       else path pd = [] \<and> totalDistance pd = 0"
    by blast
  from nw have "\<not> (\<exists>w. walk g s d w \<and> w < INF_DIST)" by blast
  with pd(2) have pd0: "path pd = []" "totalDistance pd = 0" by simp_all
  from astar_total [OF assms(1,2,3,4,5,6)] obtain pa where
    pa: "snd (astar g s d) = Some (Inr pa)"
      "path pa = [] \<and> totalDistance pa = 0 \<or> path pa \<noteq> [] \<and> walk g s d (totalDistance pa)"
    by blast
  from pa(2) nw have pa0: "path pa = []" "totalDistance pa = 0" by blast+
  from pd(1) pd0 pa(1) pa0 show ?thesis by (simp add: pathLength_def)
qed

theorem unreachable_empty_witness:
  "graph_inv squareGraph \<and> ids_in_range squareGraph \<and> weights_fit squareGraph \<and>
   coords_fit squareGraph \<and> 4 \<in> cityIDs squareGraph \<and> 1 \<in> cityIDs squareGraph \<and>
   \<not> (\<exists>w. walk squareGraph 4 1 w) \<and>
   snd (dijkstra squareGraph 4 1)
     = Some (Inr \<lparr>path = [], totalDistance = 0, pathCapacity = 4\<rparr>) \<and>
   snd (astar squareGraph 4 1)
     = Some (Inr \<lparr>path = [], totalDistance = 0, pathCapacity = 4\<rparr>)"
proof -
  have nw: "\<not> (\<exists>w. walk squareGraph 4 1 w)"
    using squareGraph_back by fastforce
  have ed: "snd (dijkstra squareGraph 4 1)
     = Some (Inr \<lparr>path = [], totalDistance = 0, pathCapacity = 4\<rparr>)"
    by code_simp
  have ea: "snd (astar squareGraph 4 1)
     = Some (Inr \<lparr>path = [], totalDistance = 0, pathCapacity = 4\<rparr>)"
    by code_simp
  from unreachable_empty [OF squareGraph_pre(1,2,3) squareGraph_heur(1) squareGraph_pre(5,4) nw]
  have "\<exists>pd pa.
           snd (dijkstra squareGraph 4 1) = Some (Inr pd) \<and> pathLength pd = 0 \<and>
           totalDistance pd = 0 \<and>
           snd (astar squareGraph 4 1) = Some (Inr pa) \<and> pathLength pa = 0 \<and>
           totalDistance pa = 0" .
  with nw ed ea squareGraph_pre squareGraph_heur(1) show ?thesis by simp
qed


definition farIds :: graph where
  "farIds =
     \<lparr>cities =
        [\<lparr>cityID = 1, cityName = ''A'', city_x = 0, city_y = 0, adjList = []\<rparr>,
         \<lparr>cityID = 1000, cityName = ''B'', city_x = 3, city_y = 4, adjList = []\<rparr>],
      capacity = 50\<rparr>"

lemma farIds_back: "walk farIds a b w \<Longrightarrow> b = a"
proof (induction rule: walk.induct)
  case walk_start
  show ?case by simp
next
  case (walk_step b w c e)
  then show ?case by (auto simp: farIds_def)
qed

text \<open>
  C5 as stated in the specification puts no bound on the identifiers.  \<open>farIds\<close> has
  the cities 1 and 1000 and no road, so no directed path leads from 1000 to 1.  Both
  queries write the position-table entry of city 1000, outside the table, when they
  insert it into the heap: neither returns a path result.
\<close>

theorem unreachable_outside_counterexample:
  "loadGraph (createGraph 50) [(1, ''A'', 0, 0), (1000, ''B'', 3, 4)] [] = Inr farIds \<and>
   1000 \<in> cityIDs farIds \<and> 1 \<in> cityIDs farIds \<and>
   \<not> (\<exists>w. walk farIds 1000 1 w) \<and>
   snd (dijkstra farIds 1000 1) = Some (Inl OutOfBounds) \<and>
   snd (astar farIds 1000 1) = Some (Inl OutOfBounds)"
proof (intro conjI)
  show "loadGraph (createGraph 50) [(1, ''A'', 0, 0), (1000, ''B'', 3, 4)] [] = Inr farIds"
    by code_simp
  show "1000 \<in> cityIDs farIds" "1 \<in> cityIDs farIds"
    by (simp_all add: cityIDs_def farIds_def)
  show "\<not> (\<exists>w. walk farIds 1000 1 w)" using farIds_back by fastforce
  show "snd (dijkstra farIds 1000 1) = Some (Inl OutOfBounds)" by code_simp
  show "snd (astar farIds 1000 1) = Some (Inl OutOfBounds)" by code_simp
qed






section \<open>The example scenario\<close>

text \<open>
  C4 (as the code has it).  Cities A(0,0), B(0,3), C(4,0), D(4,3), added in that order
  with the identifiers 1 to 4, and the roads A-B (3), A-C (4), B-D (4), C-D (3), added in
  that order, give \<open>squareGraph\<close>; on it \<open>dijkstra\<close> from A to D returns the path
  A, B, D with total distance 7.
\<close>

theorem dijkstra_square:
  "loadGraph (createGraph 50)
     [(1, ''A'', 0, 0), (2, ''B'', 0, 3), (3, ''C'', 4, 0), (4, ''D'', 4, 3)]
     [(1, 2, 3), (1, 3, 4), (2, 4, 4), (3, 4, 3)] = Inr squareGraph \<and>
   snd (dijkstra squareGraph 1 4)
     = Some (Inr \<lparr>path = [1, 2, 4], totalDistance = 7, pathCapacity = 4\<rparr>)"
proof
  show "loadGraph (createGraph 50)
     [(1, ''A'', 0, 0), (2, ''B'', 0, 3), (3, ''C'', 4, 0), (4, ''D'', 4, 3)]
     [(1, 2, 3), (1, 3, 4), (2, 4, 4), (3, 4, 3)] = Inr squareGraph"
    by code_simp
  show "snd (dijkstra squareGraph 1 4)
     = Some (Inr \<lparr>path = [1, 2, 4], totalDistance = 7, pathCapacity = 4\<rparr>)"
    by code_simp
qed

text \<open>
  C4 as stated in the specification names the path A, C, D.  Both routes cost 7; B is
  settled before C and reaches D first, and the later route through C is no improvement
  under the strict comparison, so the path returned is A, B, D.
\<close>

theorem dijkstra_square_counterexample:
  "snd (dijkstra squareGraph 1 4)
     \<noteq> Some (Inr \<lparr>path = [1, 3, 4], totalDistance = 7, pathCapacity = 4\<rparr>) \<and>
   snd (dijkstra squareGraph 1 4)
     = Some (Inr \<lparr>path = [1, 2, 4], totalDistance = 7, pathCapacity = 4\<rparr>)"
proof -
  have "snd (dijkstra squareGraph 1 4)
     = Some (Inr \<lparr>path = [1, 2, 4], totalDistance = 7, pathCapacity = 4\<rparr>)"
    by code_simp
  then show ?thesis by simp
qed

section \<open>The position table after the last extraction\<close>

text \<open>
  C2 at a concrete input: a heap of capacity 4 receives city 5 and gives it back.  The
  root is also the last node, so \<open>extractMin\<close> writes -1 and then 0 to the same entry:
  the heap is empty and the position table still maps city 5 to slot 0.
\<close>

theorem extractMin_last_keeps_pos:
  "(case insertHeap (createMinHeap 4) 5 0 0 of
      Inl e \<Rightarrow> False
    | Inr h1 \<Rightarrow>
        (case extractMin h1 of
           Inl e \<Rightarrow> False
         | Inr (n, h2) \<Rightarrow> node_cityID n = 5 \<and> heap_size h2 = 0 \<and> pos h2 5 = 0))"
  by code_simp

end
